theory Spec2Isabelle
  imports Complex_Main "HOL-Library.AList"
begin

section \<open>The process queue of actinia\_core (process\_queue.py)\<close>

text \<open>
  A shallow embedding of \<^verbatim>\<open>src/actinia_core/resources/common/process_queue.py\<close>:
  the wrapper class \<^verbatim>\<open>EnqueuedProcess\<close> and the supervisor loop
  \<^verbatim>\<open>start_process_queue_manager\<close>.

  Conventions.
  \<^item> Python values travelling through the queue and the status store are the datatype
    \<open>pyval\<close>; a Python exception is a value of \<open>error\<close>, and a function that can raise
    returns \<open>error + 'a\<close> (\<open>Inl\<close> the exception).
  \<^item> Everything outside the supervisor (the clock, the operating system's processes, the
    status store, the queue's closed flag) is the record \<open>world\<close>, passed explicitly.
  \<^item> Timestamps are \<open>real\<close>: \<^verbatim>\<open>time.time()\<close> returns a float, and the rounding of float
    arithmetic is not modelled.
  \<^item> A Python \<^verbatim>\<open>set\<close> of wrappers is a list; the list's order stands for the set's
    iteration order, membership is by object identity (the handle \<open>process\<close>), and the
    element that \<^verbatim>\<open>set.pop()\<close> removes is chosen by an index supplied from outside.
  \<^item> The \<^verbatim>\<open>print\<close> calls, the logger set-up and the creation of the supervisor process
    (\<^verbatim>\<open>create_process_queue\<close>) are left out: no modelled code reads them.
\<close>

subsection \<open>Python values and exceptions\<close>

datatype error = TypeError | ValueError | IndexError | KeyError | AttributeError | AssertionError

definition then_do :: "error + 'a \<Rightarrow> ('a \<Rightarrow> error + 'b) \<Rightarrow> error + 'b" where
  "then_do m f = (case m of Inl e \<Rightarrow> Inl e | Inr x \<Rightarrow> f x)"

record config =
  NUMBER_OF_WORKERS :: int
  REDIS_RESOURCE_EXPIRE_TIME :: int

text \<open>The execution context that is by convention the first job argument
  (\<^verbatim>\<open>args[0]\<close> with attributes \<^verbatim>\<open>config\<close>, \<^verbatim>\<open>resource_id\<close>, \<^verbatim>\<open>user_id\<close>).\<close>

record job_context =
  ctx_config :: config
  ctx_resource_id :: string
  ctx_user_id :: string

datatype pyval =
    PNone
  | PStr string
  | PNum real
  | PTuple "pyval list"
  | PList "pyval list"
  | PDict "(string \<times> pyval) list"
  | PFunc nat
  | PCtx job_context

text \<open>\<^verbatim>\<open>needle in haystack\<close> on two strings: substring search.\<close>

fun str_contains :: "string \<Rightarrow> string \<Rightarrow> bool" where
  "str_contains needle [] = (needle = [])"
| "str_contains needle (c # cs) =
     (take (length needle) (c # cs) = needle \<or> str_contains needle cs)"

text \<open>\<^verbatim>\<open>s in data\<close> for a string \<open>s\<close>: substring of a string, element of a tuple or
  list, key of a dict; \<^verbatim>\<open>TypeError\<close> for a value that is not iterable.\<close>

fun py_contains :: "string \<Rightarrow> pyval \<Rightarrow> error + bool" where
  "py_contains s (PStr t) = Inr (str_contains s t)"
| "py_contains s (PTuple xs) = Inr (PStr s \<in> set xs)"
| "py_contains s (PList xs) = Inr (PStr s \<in> set xs)"
| "py_contains s (PDict kvs) = Inr (s \<in> fst ` set kvs)"
| "py_contains s PNone = Inl TypeError"
| "py_contains s (PNum x) = Inl TypeError"
| "py_contains s (PFunc f) = Inl TypeError"
| "py_contains s (PCtx c) = Inl TypeError"

text \<open>\<^verbatim>\<open>len(data)\<close>.\<close>

fun py_len :: "pyval \<Rightarrow> error + nat" where
  "py_len (PStr t) = Inr (length t)"
| "py_len (PTuple xs) = Inr (length xs)"
| "py_len (PList xs) = Inr (length xs)"
| "py_len (PDict kvs) = Inr (length kvs)"
| "py_len PNone = Inl TypeError"
| "py_len (PNum x) = Inl TypeError"
| "py_len (PFunc f) = Inl TypeError"
| "py_len (PCtx c) = Inl TypeError"

text \<open>Iterating a value, as \<^verbatim>\<open>tuple(args)\<close> and tuple unpacking do: the characters of a
  string, the elements of a tuple or list, the keys of a dict.\<close>

fun py_tuple :: "pyval \<Rightarrow> error + pyval list" where
  "py_tuple (PStr t) = Inr (map (\<lambda>c. PStr [c]) t)"
| "py_tuple (PTuple xs) = Inr xs"
| "py_tuple (PList xs) = Inr xs"
| "py_tuple (PDict kvs) = Inr (map (\<lambda>kv. PStr (fst kv)) kvs)"
| "py_tuple PNone = Inl TypeError"
| "py_tuple (PNum x) = Inl TypeError"
| "py_tuple (PFunc f) = Inl TypeError"
| "py_tuple (PCtx c) = Inl TypeError"

text \<open>\<^verbatim>\<open>a, b = v\<close> and \<^verbatim>\<open>a, b, c = v\<close>: \<^verbatim>\<open>ValueError\<close> when the number of items differs.\<close>

definition unpack2 :: "pyval \<Rightarrow> error + pyval \<times> pyval" where
  "unpack2 v = then_do (py_tuple v)
     (\<lambda>xs. case xs of [a, b] \<Rightarrow> Inr (a, b) | _ \<Rightarrow> Inl ValueError)"

definition unpack3 :: "pyval \<Rightarrow> error + pyval \<times> pyval \<times> pyval" where
  "unpack3 v = then_do (py_tuple v)
     (\<lambda>xs. case xs of [a, b, c] \<Rightarrow> Inr (a, b, c) | _ \<Rightarrow> Inl ValueError)"

text \<open>\<^verbatim>\<open>args[0]\<close>.\<close>

fun py_index0 :: "pyval \<Rightarrow> error + pyval" where
  "py_index0 (PStr t) = (case t of [] \<Rightarrow> Inl IndexError | c # _ \<Rightarrow> Inr (PStr [c]))"
| "py_index0 (PTuple xs) = (case xs of [] \<Rightarrow> Inl IndexError | x # _ \<Rightarrow> Inr x)"
| "py_index0 (PList xs) = (case xs of [] \<Rightarrow> Inl IndexError | x # _ \<Rightarrow> Inr x)"
| "py_index0 (PDict kvs) = Inl KeyError"
| "py_index0 PNone = Inl TypeError"
| "py_index0 (PNum x) = Inl TypeError"
| "py_index0 (PFunc f) = Inl TypeError"
| "py_index0 (PCtx c) = Inl TypeError"

text \<open>Reading the attributes \<^verbatim>\<open>.config\<close>, \<^verbatim>\<open>.resource_id\<close>, \<^verbatim>\<open>.user_id\<close>: only a context
  has them.\<close>

fun ctx_of :: "pyval \<Rightarrow> error + job_context" where
  "ctx_of (PCtx c) = Inr c"
| "ctx_of PNone = Inl AttributeError"
| "ctx_of (PStr t) = Inl AttributeError"
| "ctx_of (PNum x) = Inl AttributeError"
| "ctx_of (PTuple xs) = Inl AttributeError"
| "ctx_of (PList xs) = Inl AttributeError"
| "ctx_of (PDict kvs) = Inl AttributeError"
| "ctx_of (PFunc f) = Inl AttributeError"

text \<open>\<^verbatim>\<open>d[k]\<close> and \<^verbatim>\<open>d[k] = v\<close> with a string key: defined on a dict only (a list or a
  string indexed by a string raises \<^verbatim>\<open>TypeError\<close>). A dict keeps its insertion order.\<close>

fun getitem :: "pyval \<Rightarrow> string \<Rightarrow> error + pyval" where
  "getitem (PDict kvs) k = (case map_of kvs k of None \<Rightarrow> Inl KeyError | Some v \<Rightarrow> Inr v)"
| "getitem PNone k = Inl TypeError"
| "getitem (PStr t) k = Inl TypeError"
| "getitem (PNum x) k = Inl TypeError"
| "getitem (PTuple xs) k = Inl TypeError"
| "getitem (PList xs) k = Inl TypeError"
| "getitem (PFunc f) k = Inl TypeError"
| "getitem (PCtx c) k = Inl TypeError"

fun setitem :: "pyval \<Rightarrow> string \<Rightarrow> pyval \<Rightarrow> error + pyval" where
  "setitem (PDict kvs) k v = Inr (PDict (AList.update k v kvs))"
| "setitem PNone k v = Inl TypeError"
| "setitem (PStr t) k v = Inl TypeError"
| "setitem (PNum x) k v = Inl TypeError"
| "setitem (PTuple xs) k v = Inl TypeError"
| "setitem (PList xs) k v = Inl TypeError"
| "setitem (PFunc f) k v = Inl TypeError"
| "setitem (PCtx c) k v = Inl TypeError"

text \<open>\<^verbatim>\<open>a - b\<close> and \<^verbatim>\<open>a < b\<close> on numbers; \<^verbatim>\<open>TypeError\<close> otherwise.\<close>

fun py_sub :: "pyval \<Rightarrow> pyval \<Rightarrow> error + pyval" where
  "py_sub (PNum a) (PNum b) = Inr (PNum (a - b))"
| "py_sub _ _ = Inl TypeError"

fun py_lt :: "pyval \<Rightarrow> real \<Rightarrow> error + bool" where
  "py_lt (PNum a) b = Inr (a < b)"
| "py_lt _ b = Inl TypeError"

text \<open>\<^verbatim>\<open>"%i" % x\<close>: the number truncated towards zero, in decimal.\<close>

fun digits :: "nat \<Rightarrow> string" where
  "digits n = (if n < 10 then [''0123456789'' ! n]
               else digits (n div 10) @ [''0123456789'' ! (n mod 10)])"

declare digits.simps [simp del]

definition str_int :: "int \<Rightarrow> string" where
  "str_int i = (if i < 0 then CHR ''-'' # digits (nat (- i)) else digits (nat i))"

definition py_int :: "real \<Rightarrow> int" where
  "py_int x = (if x < 0 then - \<lfloor>- x\<rfloor> else \<lfloor>x\<rfloor>)"

fun fmt_i :: "pyval \<Rightarrow> error + string" where
  "fmt_i (PNum x) = Inr (str_int (py_int x))"
| "fmt_i _ = Inl TypeError"

subsection \<open>The world outside the supervisor\<close>

type_synonym key = "string \<times> string"

text \<open>The state of a \<^verbatim>\<open>multiprocessing.Process\<close>: \<^verbatim>\<open>is_alive()\<close> is true in \<open>Alive\<close> only,
  \<^verbatim>\<open>exitcode\<close> is \<^verbatim>\<open>None\<close> except in \<open>Exited\<close>.\<close>

datatype proc_state = NotStarted | Alive | Exited int

text \<open>What happens while the supervisor is blocked in \<^verbatim>\<open>queue.get\<close> or \<^verbatim>\<open>time.sleep\<close>:
  time passes, running jobs exit, and jobs write their own status documents.\<close>

record os_event =
  elapsed :: real
  exits :: "(nat \<times> int) list"
  writes :: "(key \<times> pyval \<times> int) list"

text \<open>A history of the calls \<^verbatim>\<open>start()\<close> and \<^verbatim>\<open>terminate(status, message)\<close> made on
  wrappers, by handle. No modelled code reads it.\<close>

datatype call = Start nat | Terminate nat string string

record world =
  now :: real
  str_datetime :: "real \<Rightarrow> string"
  procs :: "nat \<Rightarrow> proc_state"
  nprocs :: nat
  signals :: "nat list"
  documents :: "key \<rightharpoonup> pyval \<times> int"
  termination_requests :: "key list"
  pending :: "os_event list"
  queue_closed :: bool
  calls :: "call list"

text \<open>
  \<^item> \<open>now\<close> is what \<^verbatim>\<open>time.time()\<close> returns; \<open>str_datetime w t\<close> is the library's rendering
    \<^verbatim>\<open>str(datetime.now())\<close> of the instant \<open>t\<close>.
  \<^item> \<open>procs\<close> is the process table, \<open>nprocs\<close> the next free handle, \<open>signals\<close> the handles
    that were sent SIGTERM by \<^verbatim>\<open>Process.terminate()\<close>.
  \<^item> \<open>documents\<close> and \<open>termination_requests\<close> are the status store.
  \<^item> \<open>pending\<close> lists what will happen during the coming blocking calls, one entry each.
\<close>

definition exit_proc :: "nat \<times> int \<Rightarrow> (nat \<Rightarrow> proc_state) \<Rightarrow> (nat \<Rightarrow> proc_state)" where
  "exit_proc e ps = (if ps (fst e) = Alive then ps(fst e := Exited (snd e)) else ps)"

definition write_doc :: "key \<times> pyval \<times> int \<Rightarrow> (key \<rightharpoonup> pyval \<times> int) \<Rightarrow> (key \<rightharpoonup> pyval \<times> int)" where
  "write_doc x m = m(fst x \<mapsto> snd x)"

definition happen :: "real \<Rightarrow> os_event \<Rightarrow> world \<Rightarrow> world" where
  "happen dt e w = w\<lparr>now := now w + dt,
                     procs := fold exit_proc (exits e) (procs w),
                     documents := fold write_doc (writes e) (documents w)\<rparr>"

text \<open>\<^verbatim>\<open>time.sleep(secs)\<close>: at least \<open>secs\<close> pass.\<close>

definition sleep :: "real \<Rightarrow> world \<Rightarrow> world" where
  "sleep secs w = (case pending w of
       [] \<Rightarrow> w\<lparr>now := now w + secs\<rparr>
     | e # es \<Rightarrow> happen (max secs (elapsed e)) e (w\<lparr>pending := es\<rparr>))"

text \<open>The waiting part of \<^verbatim>\<open>queue.get(block=True, timeout=1)\<close>; the message it returns
  is an input of the loop body.\<close>

definition queue_get :: "world \<Rightarrow> world" where
  "queue_get w = (case pending w of
       [] \<Rightarrow> w
     | e # es \<Rightarrow> happen (elapsed e) e (w\<lparr>pending := es\<rparr>))"

definition queue_close :: "world \<Rightarrow> world" where
  "queue_close w = w\<lparr>queue_closed := True\<rparr>"

subsection \<open>The status store (\<^verbatim>\<open>ResourceLogger\<close>)\<close>

text \<open>Modelled from the spec: the class \<^verbatim>\<open>ResourceLogger\<close> is imported from
  \<^verbatim>\<open>actinia_core.resources.common.resources_logger\<close>, which is not among the sources. The
  spec gives its contract: \<^verbatim>\<open>notifyTerminationRequested(userId, resourceId)\<close> writes a
  "termination requested" marker for the key.\<close>

definition commit_termination :: "string \<Rightarrow> string \<Rightarrow> world \<Rightarrow> world" where
  "commit_termination uid rid w =
     w\<lparr>termination_requests := termination_requests w @ [(uid, rid)]\<rparr>"

text \<open>Modelled from the spec: \<^verbatim>\<open>getStatus(userId, resourceId)\<close> returns the last persisted
  Status Document for the key, or none. The pickled document is modelled by the value
  it unpickles to.\<close>

definition logger_get :: "string \<Rightarrow> string \<Rightarrow> world \<Rightarrow> pyval option" where
  "logger_get uid rid w = map_option fst (documents w (uid, rid))"

text \<open>Modelled from the spec: \<^verbatim>\<open>putStatus(userId, resourceId, document, ttl)\<close> persists the
  document for the key with the expiration.\<close>

definition commit :: "string \<Rightarrow> string \<Rightarrow> pyval \<Rightarrow> int \<Rightarrow> world \<Rightarrow> world" where
  "commit uid rid document expiration w =
     w\<lparr>documents := (documents w)((uid, rid) \<mapsto> (document, expiration))\<rparr>"

subsection \<open>The wrapper \<^verbatim>\<open>EnqueuedProcess\<close>\<close>

text \<open>\<open>process\<close> is the handle of the wrapper's \<^verbatim>\<open>Process\<close> object in the process table
  (the object's identity); \<open>target\<close> and \<open>pargs\<close> are what the \<^verbatim>\<open>Process\<close> was created with.\<close>

record enqueued_process =
  process :: nat
  target :: pyval
  pargs :: "pyval list"
  timeout :: pyval
  config :: config
  resource_id :: string
  user_id :: string
  init_time :: real
  started :: bool

text \<open>\<^verbatim>\<open>__init__\<close> (lines 87-99).\<close>

definition EnqueuedProcess ::
  "pyval \<Rightarrow> pyval \<Rightarrow> pyval \<Rightarrow> world \<Rightarrow> error + enqueued_process \<times> world" where
  "EnqueuedProcess func tmo args w =
     then_do (py_tuple args) (\<lambda>targs.
     then_do (py_index0 args) (\<lambda>a0.
     then_do (ctx_of a0) (\<lambda>c.
       Inr (\<lparr>process = nprocs w, target = func, pargs = targs, timeout = tmo,
             config = ctx_config c, resource_id = ctx_resource_id c,
             user_id = ctx_user_id c, init_time = now w, started = False\<rparr>,
            w\<lparr>procs := (procs w)(nprocs w := NotStarted), nprocs := Suc (nprocs w)\<rparr>))))"

text \<open>\<^verbatim>\<open>start\<close> (lines 104-111). \<^verbatim>\<open>Process.start()\<close> asserts that the process was not
  started before.\<close>

definition start :: "enqueued_process \<Rightarrow> world \<Rightarrow> error + enqueued_process \<times> world" where
  "start self w =
     (let self' = self\<lparr>started := True\<rparr>;
          w' = w\<lparr>calls := calls w @ [Start (process self)]\<rparr>
      in if procs w' (process self') = NotStarted
         then Inr (self', w'\<lparr>procs := (procs w')(process self' := Alive)\<rparr>)
         else Inl AssertionError)"

definition is_alive :: "enqueued_process \<Rightarrow> world \<Rightarrow> bool" where
  "is_alive self w = (procs w (process self) = Alive)"

definition exitcode :: "enqueued_process \<Rightarrow> world \<Rightarrow> int option" where
  "exitcode self w = (case procs w (process self) of Exited c \<Rightarrow> Some c | _ \<Rightarrow> None)"

text \<open>\<^verbatim>\<open>Process.terminate()\<close>: SIGTERM is sent to the process.\<close>

definition process_terminate :: "nat \<Rightarrow> world \<Rightarrow> world" where
  "process_terminate h w = w\<lparr>signals := signals w @ [h]\<rparr>"

text \<open>\<^verbatim>\<open>_send_resource_update\<close> (lines 166-193).\<close>

definition send_resource_update ::
  "enqueued_process \<Rightarrow> string \<Rightarrow> string \<Rightarrow> world \<Rightarrow> error + world" where
  "send_resource_update self status message w =
     (case logger_get (user_id self) (resource_id self) w of
        None \<Rightarrow> Inr w
      | Some response_data \<Rightarrow>
          then_do (unpack2 response_data) (\<lambda>(http_code, response_model).
          then_do (setitem response_model ''status'' (PStr status)) (\<lambda>m1.
          then_do (setitem m1 ''message''
                     (PStr (''The process was terminated by the server: '' @ message))) (\<lambda>m2.
          then_do (getitem m2 ''accept_timestamp'') (\<lambda>orig_time.
          then_do (setitem m2 ''timestamp'' (PNum (now w))) (\<lambda>m3.
          then_do (setitem m3 ''datetime'' (PStr (str_datetime w (now w)))) (\<lambda>m4.
          then_do (getitem m4 ''timestamp'') (\<lambda>ts.
          then_do (py_sub ts orig_time) (\<lambda>delta.
          then_do (setitem m4 ''time_delta'' delta) (\<lambda>m5.
            Inr (commit (user_id self) (resource_id self) (PList [http_code, m5])
                   (REDIS_RESOURCE_EXPIRE_TIME (config self)) w)))))))))))"

text \<open>\<^verbatim>\<open>terminate\<close> (lines 113-131).\<close>

definition terminate :: "enqueued_process \<Rightarrow> string \<Rightarrow> string \<Rightarrow> world \<Rightarrow> error + world" where
  "terminate self status message w =
     (let w0 = w\<lparr>calls := calls w @ [Terminate (process self) status message]\<rparr>;
          w1 = commit_termination (user_id self) (resource_id self) w0;
          w2 = sleep 1 w1;
          w3 = (if is_alive self w2 then process_terminate (process self) w2 else w2)
      in send_resource_update self status message w3)"

text \<open>\<^verbatim>\<open>check_timeout\<close> (lines 139-154).\<close>

definition timeout_message :: "string \<Rightarrow> string" where
  "timeout_message t =
     ''Processes exceeded timeout ('' @ t @ '') in waiting queue and was terminated.''"

definition check_timeout :: "enqueued_process \<Rightarrow> world \<Rightarrow> error + bool \<times> world" where
  "check_timeout self w =
     (if started self = False then
        (let current_time = now w;
             diff = current_time - init_time self
         in then_do (py_lt (timeout self) diff) (\<lambda>late.
              if late then
                then_do (fmt_i (timeout self)) (\<lambda>t.
                then_do (terminate self ''timeout'' (timeout_message t) w) (\<lambda>w'.
                  Inr (True, w')))
              else Inr (False, w)))
      else Inr (False, w))"

text \<open>\<^verbatim>\<open>check_exit\<close> (lines 156-164). The supervisor loop does not call it: the call at
  line 350 is commented out.\<close>

definition check_exit :: "enqueued_process \<Rightarrow> world \<Rightarrow> error + world" where
  "check_exit self w =
     (case exitcode self w of
        None \<Rightarrow> Inr w
      | Some c \<Rightarrow>
          if c \<noteq> 0 then
            send_resource_update self ''error''
              (''The process unexpectedly terminated with exit code '' @ str_int c) w
          else Inr w)"

subsection \<open>Sets of wrappers\<close>

text \<open>\<^verbatim>\<open>set.add\<close>, \<^verbatim>\<open>set.remove\<close> (\<^verbatim>\<open>KeyError\<close> when the element is absent) and
  \<^verbatim>\<open>set.pop\<close> (\<^verbatim>\<open>KeyError\<close> on the empty set). Wrappers are compared by identity.\<close>

definition set_add :: "enqueued_process \<Rightarrow> enqueued_process list \<Rightarrow> enqueued_process list" where
  "set_add x s = (if process x \<in> process ` set s then s else s @ [x])"

definition set_remove ::
  "enqueued_process \<Rightarrow> enqueued_process list \<Rightarrow> error + enqueued_process list" where
  "set_remove x s =
     (if process x \<in> process ` set s then Inr (filter (\<lambda>y. process y \<noteq> process x) s)
      else Inl KeyError)"

definition set_pop ::
  "nat \<Rightarrow> enqueued_process list \<Rightarrow> error + enqueued_process \<times> enqueued_process list" where
  "set_pop k s =
     (if s = [] then Inl KeyError
      else let i = k mod length s in Inr (s ! i, take i s @ drop (Suc i) s))"

subsection \<open>The supervisor loop \<^verbatim>\<open>start_process_queue_manager\<close>\<close>

record loop_state =
  running_procs :: "enqueued_process list"
  waiting_processes :: "enqueued_process list"
  env :: world

text \<open>What one pass through the loop body is given from outside: the message that
  \<^verbatim>\<open>queue.get\<close> returned (\<open>PNone\<close> when the queue was empty for a second, line 318) and
  the choice that \<^verbatim>\<open>set.pop\<close> makes.\<close>

record tick =
  data :: pyval
  pick :: nat

text \<open>\<^verbatim>\<open>enqueue_job(timeout, func, *args)\<close> (lines 52-64) puts the tuple
  \<^verbatim>\<open>(func, timeout, args)\<close> on the queue, and \<^verbatim>\<open>stop_process_queue()\<close> (lines 67-76) puts
  the string \<^verbatim>\<open>"STOP"\<close>; these are the messages they put.\<close>

definition enqueue_job :: "pyval \<Rightarrow> pyval \<Rightarrow> pyval list \<Rightarrow> pyval" where
  "enqueue_job tmo func args = PTuple [func, tmo, PTuple args]"

definition stop_process_queue :: pyval where
  "stop_process_queue = PStr ''STOP''"

datatype outcome = Continue loop_state | Stopped loop_state

definition initial :: "world \<Rightarrow> loop_state" where
  "initial w = \<lparr>running_procs = [], waiting_processes = [], env = w\<rparr>"

text \<open>Line 322: \<^verbatim>\<open>data is not None and "STOP" in data\<close>.\<close>

definition is_stop :: "pyval \<Rightarrow> error + bool" where
  "is_stop d = (if d \<noteq> PNone then py_contains ''STOP'' d else Inr False)"

text \<open>Line 330: \<^verbatim>\<open>data is not None and len(data) == 3\<close>.\<close>

definition is_submission :: "pyval \<Rightarrow> error + bool" where
  "is_submission d = (if d \<noteq> PNone then then_do (py_len d) (\<lambda>n. Inr (n = 3)) else Inr False)"

fun terminate_each ::
  "enqueued_process list \<Rightarrow> string \<Rightarrow> string \<Rightarrow> world \<Rightarrow> error + world" where
  "terminate_each [] status message w = Inr w"
| "terminate_each (enqproc # rest) status message w =
     then_do (terminate enqproc status message w) (terminate_each rest status message)"

text \<open>Lines 323-327: the two loops of the shutdown branch and \<^verbatim>\<open>queue.close()\<close>.\<close>

definition shutdown :: "loop_state \<Rightarrow> error + loop_state" where
  "shutdown st =
     then_do (terminate_each (running_procs st) ''error''
                ''Running process was terminated by server shutdown.'' (env st)) (\<lambda>w1.
     then_do (terminate_each (waiting_processes st) ''error''
                ''Waiting process was terminated by server shutdown.'' w1) (\<lambda>w2.
       Inr (st\<lparr>env := queue_close w2\<rparr>)))"

text \<open>Lines 330-337: a message of length 3 is unpacked and wrapped.\<close>

definition submission :: "pyval \<Rightarrow> loop_state \<Rightarrow> error + loop_state" where
  "submission d st =
     then_do (is_submission d) (\<lambda>sub.
       if sub then
         then_do (unpack3 d) (\<lambda>(func, tmo, args).
         then_do (EnqueuedProcess func tmo args (env st)) (\<lambda>(enqproc, w).
           Inr (st\<lparr>waiting_processes := set_add enqproc (waiting_processes st), env := w\<rparr>)))
       else Inr st)"

text \<open>Lines 339-343. The wrapper is the same object in the set and in \<^verbatim>\<open>enqproc\<close>, so
  the flag that \<^verbatim>\<open>start()\<close> sets is set on the member of \<^verbatim>\<open>running_procs\<close>.\<close>

definition admission :: "config \<Rightarrow> nat \<Rightarrow> loop_state \<Rightarrow> error + loop_state" where
  "admission cfg k st =
     (if int (length (running_procs st)) < NUMBER_OF_WORKERS cfg then
        if length (waiting_processes st) > 0 then
          then_do (set_pop k (waiting_processes st)) (\<lambda>(enqproc, rest).
          then_do (start enqproc (env st)) (\<lambda>(enqproc', w).
            Inr (st\<lparr>waiting_processes := rest,
                    running_procs := set_add enqproc' (running_procs st),
                    env := w\<rparr>)))
        else Inr st
      else Inr st)"

fun remove_each ::
  "enqueued_process list \<Rightarrow> enqueued_process list \<Rightarrow> error + enqueued_process list" where
  "remove_each [] s = Inr s"
| "remove_each (enqproc # rest) s = then_do (set_remove enqproc s) (remove_each rest)"

text \<open>Lines 345-353: mark, then remove.\<close>

definition finished :: "world \<Rightarrow> enqueued_process \<Rightarrow> bool" where
  "finished w enqproc = (started enqproc = True \<and> exitcode enqproc w \<noteq> None)"

definition reap :: "loop_state \<Rightarrow> error + loop_state" where
  "reap st =
     (let procs_to_remove = filter (finished (env st)) (running_procs st)
      in then_do (remove_each procs_to_remove (running_procs st)) (\<lambda>r.
           Inr (st\<lparr>running_procs := r\<rparr>)))"

text \<open>Lines 355-363: \<^verbatim>\<open>check_timeout()\<close> on every waiting wrapper, then remove those
  that reported \<^verbatim>\<open>True\<close>.\<close>

fun check_each ::
  "enqueued_process list \<Rightarrow> world \<Rightarrow> error + enqueued_process list \<times> world" where
  "check_each [] w = Inr ([], w)"
| "check_each (enqproc # rest) w =
     then_do (check_timeout enqproc w) (\<lambda>(check, w').
     then_do (check_each rest w') (\<lambda>(procs_to_remove, w'').
       Inr (if check = True then enqproc # procs_to_remove else procs_to_remove, w'')))"

definition evict :: "loop_state \<Rightarrow> error + loop_state" where
  "evict st =
     then_do (check_each (waiting_processes st) (env st)) (\<lambda>(procs_to_remove, w).
     then_do (remove_each procs_to_remove (waiting_processes st)) (\<lambda>ws.
       Inr (st\<lparr>waiting_processes := ws, env := w\<rparr>)))"

text \<open>The loop body up to and including the admission step (lines 316-343): \<open>None\<close>
  when the shutdown branch returned.\<close>

definition upto_admission :: "config \<Rightarrow> tick \<Rightarrow> loop_state \<Rightarrow> error + loop_state option" where
  "upto_admission cfg tk st =
     (let st0 = st\<lparr>env := queue_get (env st)\<rparr>
      in then_do (is_stop (data tk)) (\<lambda>stop.
           if stop then Inr None
           else then_do (submission (data tk) st0) (\<lambda>st1.
                then_do (admission cfg (pick tk) st1) (\<lambda>st2. Inr (Some st2)))))"

text \<open>One pass through the loop body (lines 314-363). On \<^verbatim>\<open>return\<close> the \<^verbatim>\<open>finally\<close>
  clause closes the queue once more. An exception leaves the loop (\<^verbatim>\<open>except: raise\<close>); the
  model keeps the exception and not the world it was raised in.\<close>

definition loop_body :: "config \<Rightarrow> tick \<Rightarrow> loop_state \<Rightarrow> error + outcome" where
  "loop_body cfg tk st =
     (let st0 = st\<lparr>env := queue_get (env st)\<rparr>
      in then_do (is_stop (data tk)) (\<lambda>stop.
           if stop then
             then_do (shutdown st0) (\<lambda>st'. Inr (Stopped (st'\<lparr>env := queue_close (env st')\<rparr>)))
           else
             then_do (submission (data tk) st0) (\<lambda>st1.
             then_do (admission cfg (pick tk) st1) (\<lambda>st2.
             then_do (reap st2) (\<lambda>st3.
             then_do (evict st3) (\<lambda>st4. Inr (Continue st4)))))))"

text \<open>\<^verbatim>\<open>while True\<close> over the messages that arrive: the loop runs as long as the world
  feeds it, and stops early when the body returns or raises.\<close>

fun run :: "config \<Rightarrow> tick list \<Rightarrow> loop_state \<Rightarrow> error + outcome" where
  "run cfg [] st = Inr (Continue st)"
| "run cfg (tk # tks) st =
     (case loop_body cfg tk st of
        Inl e \<Rightarrow> Inl e
      | Inr (Stopped st') \<Rightarrow> Inr (Stopped st')
      | Inr (Continue st') \<Rightarrow> run cfg tks st')"

subsection \<open>Observations used by the properties\<close>

definition model_ok :: "pyval \<Rightarrow> bool" where
  "model_ok m = (case m of
       PDict kvs \<Rightarrow> (case map_of kvs ''accept_timestamp'' of Some (PNum t) \<Rightarrow> True | _ \<Rightarrow> False)
     | _ \<Rightarrow> False)"

definition doc_ok :: "pyval \<Rightarrow> bool" where
  "doc_ok d = (case unpack2 d of Inr (h, m) \<Rightarrow> model_ok m | Inl e \<Rightarrow> False)"

definition docs_ok :: "(key \<rightharpoonup> pyval \<times> int) \<Rightarrow> bool" where
  "docs_ok m = (\<forall>k x. m k = Some x \<longrightarrow> doc_ok (fst x))"

definition store_ok :: "world \<Rightarrow> bool" where
  "store_ok w = (docs_ok (documents w) \<and>
                 (\<forall>e \<in> set (pending w). \<forall>x \<in> set (writes e). doc_ok (fst (snd x))))"

definition updated_model :: "string \<Rightarrow> string \<Rightarrow> world \<Rightarrow> real \<Rightarrow> (string \<times> pyval) list \<Rightarrow> (string \<times> pyval) list" where
  "updated_model status message w t0 kvs =
     AList.update ''time_delta'' (PNum (now w - t0))
       (AList.update ''datetime'' (PStr (str_datetime w (now w)))
         (AList.update ''timestamp'' (PNum (now w))
           (AList.update ''message'' (PStr (''The process was terminated by the server: '' @ message))
             (AList.update ''status'' (PStr status) kvs))))"

definition stored_field :: "key \<Rightarrow> string \<Rightarrow> world \<Rightarrow> pyval option" where
  "stored_field k f w =
     (case documents w k of
        None \<Rightarrow> None
      | Some (d, ttl) \<Rightarrow>
          (case unpack2 d of
             Inl e \<Rightarrow> None
           | Inr (h, m) \<Rightarrow> (case getitem m f of Inl e \<Rightarrow> None | Inr v \<Rightarrow> Some v)))"

definition stored_ttl :: "key \<Rightarrow> world \<Rightarrow> int option" where
  "stored_ttl k w = map_option snd (documents w k)"

text \<open>The representation invariant of the loop's two sets: every wrapper is in one set
  only and once; a running wrapper has been started; a waiting wrapper has not, and
  neither has its process; every handle has been allocated.\<close>

definition wf_state :: "loop_state \<Rightarrow> bool" where
  "wf_state st =
     (distinct (map process (running_procs st @ waiting_processes st)) \<and>
      (\<forall>p \<in> set (running_procs st). started p = True \<and> process p < nprocs (env st)) \<and>
      (\<forall>p \<in> set (waiting_processes st).
         started p = False \<and> process p < nprocs (env st) \<and>
         procs (env st) (process p) = NotStarted))"

text \<open>The state at the observation point that follows the admission step of the pass
  after the passes \<open>tks\<close>, from the start of the supervisor (both sets empty).\<close>

definition after_admission ::
  "config \<Rightarrow> tick list \<Rightarrow> tick \<Rightarrow> world \<Rightarrow> error + loop_state option" where
  "after_admission cfg tks tk w =
     (case run cfg tks (initial w) of
        Inl e \<Rightarrow> Inl e
      | Inr (Stopped st) \<Rightarrow> Inr None
      | Inr (Continue st) \<Rightarrow> upto_admission cfg tk st)"

text \<open>The number of \<^verbatim>\<open>terminate\<close> calls made on the wrapper with handle \<open>h\<close>.\<close>

fun is_terminate_of :: "nat \<Rightarrow> call \<Rightarrow> bool" where
  "is_terminate_of h (Terminate h' s m) = (h = h')"
| "is_terminate_of h (Start h') = False"

definition terminations_of :: "nat \<Rightarrow> call list \<Rightarrow> nat" where
  "terminations_of h cs = length (filter (is_terminate_of h) cs)"

definition occupancy :: "loop_state \<Rightarrow> nat \<times> nat" where
  "occupancy st = (length (running_procs st), length (waiting_processes st))"

fun is_stopped :: "outcome \<Rightarrow> bool" where
  "is_stopped (Stopped st) = True"
| "is_stopped (Continue st) = False"

text \<open>The world in which \<^verbatim>\<open>terminate\<close> looks at \<^verbatim>\<open>is_alive()\<close>: the call is logged, the
  termination request is committed and the grace period has passed.\<close>

definition before_update :: "enqueued_process \<Rightarrow> string \<Rightarrow> string \<Rightarrow> world \<Rightarrow> world" where
  "before_update p s m w =
     sleep 1 (commit_termination (user_id p) (resource_id p)
                (w\<lparr>calls := calls w @ [Terminate (process p) s m]\<rparr>))"

definition example_world :: world where
  "example_world =
     \<lparr>now = 100, str_datetime = (\<lambda>t. ''2016-05-01 12:00:00''), procs = (\<lambda>h. NotStarted),
      nprocs = 0, signals = [],
      documents = [(''u'', ''r'') \<mapsto>
        (PList [PNum 200, PDict [(''status'', PStr ''accepted''), (''message'', PStr ''x''),
                                 (''accept_timestamp'', PNum 40)]], 10)],
      termination_requests = [], pending = [], queue_closed = False, calls = []\<rparr>"

definition example_config :: config where
  "example_config = \<lparr>NUMBER_OF_WORKERS = 2, REDIS_RESOURCE_EXPIRE_TIME = 864000\<rparr>"

definition example_process :: "nat \<Rightarrow> enqueued_process" where
  "example_process h =
     \<lparr>process = h, target = PFunc 0, pargs = [], timeout = PNum 10, config = example_config,
      resource_id = ''r'', user_id = ''u'', init_time = 50, started = False\<rparr>"

definition example_submit :: tick where
  "example_submit =
     \<lparr>data = enqueue_job (PNum 10) (PFunc 0)
               [PCtx \<lparr>ctx_config = example_config, ctx_resource_id = ''r'',
                      ctx_user_id = ''u''\<rparr>],
      pick = 0\<rparr>"

definition example_idle :: tick where
  "example_idle = \<lparr>data = PNone, pick = 0\<rparr>"

text \<open>A world in which nothing happens during the first four blocking calls and the
  processes 0 and 1 exit with code 0 during the fifth.\<close>

definition example_busy_world :: world where
  "example_busy_world =
     example_world\<lparr>pending :=
       [\<lparr>elapsed = 0, exits = [], writes = []\<rparr>, \<lparr>elapsed = 0, exits = [], writes = []\<rparr>,
        \<lparr>elapsed = 0, exits = [], writes = []\<rparr>, \<lparr>elapsed = 0, exits = [], writes = []\<rparr>,
        \<lparr>elapsed = 1, exits = [(0, 0), (1, 0)], writes = []\<rparr>]\<rparr>"

text \<open>Two started wrappers: the process of the first has exited with code 1, the
  process of the second is alive.\<close>

definition example_reap_state :: loop_state where
  "example_reap_state =
     \<lparr>running_procs = [example_process 0\<lparr>started := True\<rparr>, example_process 1\<lparr>started := True\<rparr>],
      waiting_processes = [],
      env = example_world\<lparr>procs := (\<lambda>h. if h = 0 then Exited 1 else Alive), nprocs := 2\<rparr>\<rparr>"

text \<open>Two waiting wrappers and nothing running.\<close>

definition example_waiting_state :: loop_state where
  "example_waiting_state =
     \<lparr>running_procs = [],
      waiting_processes = [example_process 0, example_process 1],
      env = example_world\<lparr>nprocs := 2\<rparr>\<rparr>"

text \<open>One running wrapper whose process is alive, one waiting wrapper.\<close>

definition example_shutdown_state :: loop_state where
  "example_shutdown_state =
     \<lparr>running_procs = [example_process 0\<lparr>started := True\<rparr>],
      waiting_processes = [example_process 1],
      env = example_world\<lparr>procs := (\<lambda>h. if h = 0 then Alive else NotStarted), nprocs := 2\<rparr>\<rparr>"

section \<open>Properties\<close>

subsection \<open>Exceptions and the status document\<close>

lemma then_do_Inr [simp]: "then_do (Inr x) f = f x"
  by (simp add: then_do_def)

lemma then_do_Inl [simp]: "then_do (Inl e) f = Inl e"
  by (simp add: then_do_def)

lemma send_resource_update_none:
  "documents w (user_id p, resource_id p) = None \<Longrightarrow> send_resource_update p s m w = Inr w"
  by (simp add: send_resource_update_def logger_get_def)

lemma send_resource_update_some:
  assumes "documents w (user_id p, resource_id p) = Some (d, ttl)"
    and "unpack2 d = Inr (h, PDict kvs)"
    and "map_of kvs ''accept_timestamp'' = Some (PNum t0)"
  shows "send_resource_update p s m w =
           Inr (commit (user_id p) (resource_id p)
                  (PList [h, PDict (updated_model s m w t0 kvs)])
                  (REDIS_RESOURCE_EXPIRE_TIME (config p)) w)"
  using assms
  by (simp add: send_resource_update_def logger_get_def updated_model_def update_conv')

lemma model_okD:
  "model_ok m \<Longrightarrow> \<exists>kvs t0. m = PDict kvs \<and> map_of kvs ''accept_timestamp'' = Some (PNum t0)"
proof (cases m)
  case (PDict kvs)
  assume ok: "model_ok m"
  show ?thesis
  proof (cases "map_of kvs ''accept_timestamp''")
    case None
    with ok PDict show ?thesis by (simp add: model_ok_def)
  next
    case (Some v)
    with ok PDict show ?thesis by (cases v) (simp_all add: model_ok_def)
  qed
qed (simp_all add: model_ok_def)

lemma doc_okD:
  "doc_ok d \<Longrightarrow>
     \<exists>h kvs t0. unpack2 d = Inr (h, PDict kvs) \<and> map_of kvs ''accept_timestamp'' = Some (PNum t0)"
proof -
  assume ok: "doc_ok d"
  then obtain h m where u: "unpack2 d = Inr (h, m)" and m: "model_ok m"
    by (auto simp: doc_ok_def split: sum.splits)
  from model_okD [OF m] u show ?thesis by auto
qed

lemma updated_model_lookup:
  "map_of (updated_model s m w t0 kvs) =
     (map_of kvs)(''status'' \<mapsto> PStr s,
                  ''message'' \<mapsto> PStr (''The process was terminated by the server: '' @ m),
                  ''timestamp'' \<mapsto> PNum (now w),
                  ''datetime'' \<mapsto> PStr (str_datetime w (now w)),
                  ''time_delta'' \<mapsto> PNum (now w - t0))"
  by (simp add: updated_model_def update_conv')

lemma stored_fieldD:
  assumes "stored_field k f w = Some v"
  shows "\<exists>d ttl h kvs. documents w k = Some (d, ttl) \<and> unpack2 d = Inr (h, PDict kvs) \<and> map_of kvs f = Some v"
proof -
  from assms obtain d ttl where d: "documents w k = Some (d, ttl)"
    by (auto simp: stored_field_def split: option.splits)
  with assms obtain h m where u: "unpack2 d = Inr (h, m)"
    by (auto simp: stored_field_def split: sum.splits)
  with assms d have g: "getitem m f = Inr v"
    by (auto simp: stored_field_def split: sum.splits)
  then obtain kvs where m: "m = PDict kvs" by (cases m) simp_all
  with g have "map_of kvs f = Some v" by (simp split: option.splits)
  with d u m show ?thesis by blast
qed

lemma stored_field_commit:
  "stored_field (uid, rid) f (commit uid rid (PList [h, PDict kvs]) ttl w) = map_of kvs f"
  by (simp add: stored_field_def commit_def unpack2_def split: option.splits)

lemma stored_ttl_commit: "stored_ttl (uid, rid) (commit uid rid d ttl w) = Some ttl"
  by (simp add: stored_ttl_def commit_def)

subsection \<open>Blocking calls and the status store\<close>

lemma fold_exit_proc_not_alive:
  "ps h \<noteq> Alive \<Longrightarrow> fold exit_proc es ps h = ps h"
  by (induction es arbitrary: ps) (auto simp: exit_proc_def)

lemma happen_frame [simp]:
  "calls (happen dt e w) = calls w"
  "signals (happen dt e w) = signals w"
  "termination_requests (happen dt e w) = termination_requests w"
  "nprocs (happen dt e w) = nprocs w"
  "queue_closed (happen dt e w) = queue_closed w"
  "pending (happen dt e w) = pending w"
  by (simp_all add: happen_def)

lemma sleep_frame [simp]:
  "calls (sleep d w) = calls w"
  "signals (sleep d w) = signals w"
  "termination_requests (sleep d w) = termination_requests w"
  "nprocs (sleep d w) = nprocs w"
  "queue_closed (sleep d w) = queue_closed w"
  by (simp_all add: sleep_def split: list.splits)

lemma queue_get_frame [simp]:
  "calls (queue_get w) = calls w"
  "signals (queue_get w) = signals w"
  "termination_requests (queue_get w) = termination_requests w"
  "nprocs (queue_get w) = nprocs w"
  "queue_closed (queue_get w) = queue_closed w"
  by (simp_all add: queue_get_def split: list.splits)

lemma sleep_not_alive: "procs w h \<noteq> Alive \<Longrightarrow> procs (sleep d w) h = procs w h"
  by (simp add: sleep_def happen_def fold_exit_proc_not_alive split: list.splits)

lemma queue_get_not_alive: "procs w h \<noteq> Alive \<Longrightarrow> procs (queue_get w) h = procs w h"
  by (simp add: queue_get_def happen_def fold_exit_proc_not_alive split: list.splits)

lemma docs_okD: "docs_ok m \<Longrightarrow> m k = Some (d, ttl) \<Longrightarrow> doc_ok d"
  unfolding docs_ok_def by fastforce

lemma docs_ok_upd: "docs_ok m \<Longrightarrow> doc_ok (fst x) \<Longrightarrow> docs_ok (m(k \<mapsto> x))"
  unfolding docs_ok_def by (auto split: if_splits)

lemma fold_write_doc_ok:
  "docs_ok m \<Longrightarrow> \<forall>x \<in> set ws. doc_ok (fst (snd x)) \<Longrightarrow> docs_ok (fold write_doc ws m)"
proof (induction ws arbitrary: m)
  case Nil
  then show ?case by simp
next
  case (Cons x ws)
  have "docs_ok (write_doc x m)"
    unfolding write_doc_def using Cons.prems by (intro docs_ok_upd) simp_all
  with Cons show ?case by simp
qed

lemma store_ok_happen:
  "store_ok w \<Longrightarrow> \<forall>x \<in> set (writes e). doc_ok (fst (snd x)) \<Longrightarrow> store_ok (happen dt e w)"
  unfolding store_ok_def happen_def
  by (simp add: fold_write_doc_ok)

lemma store_ok_pending_tl:
  "store_ok w \<Longrightarrow> pending w = e # es \<Longrightarrow> store_ok (w\<lparr>pending := es\<rparr>)"
  by (simp add: store_ok_def)

lemma store_ok_pending_hd:
  "store_ok w \<Longrightarrow> pending w = e # es \<Longrightarrow> \<forall>x \<in> set (writes e). doc_ok (fst (snd x))"
  by (simp add: store_ok_def)

lemma store_ok_sleep: "store_ok w \<Longrightarrow> store_ok (sleep d w)"
proof (cases "pending w")
  case Nil
  assume "store_ok w"
  with Nil show ?thesis by (simp add: sleep_def store_ok_def)
next
  case (Cons e es)
  assume ok: "store_ok w"
  show ?thesis
    using store_ok_happen [OF store_ok_pending_tl [OF ok Cons] store_ok_pending_hd [OF ok Cons]]
    by (simp add: sleep_def Cons)
qed

lemma store_ok_queue_get: "store_ok w \<Longrightarrow> store_ok (queue_get w)"
proof (cases "pending w")
  case Nil
  assume "store_ok w"
  with Nil show ?thesis by (simp add: queue_get_def)
next
  case (Cons e es)
  assume ok: "store_ok w"
  show ?thesis
    using store_ok_happen [OF store_ok_pending_tl [OF ok Cons] store_ok_pending_hd [OF ok Cons]]
    by (simp add: queue_get_def Cons)
qed

lemma store_ok_frame [simp]:
  "store_ok (w\<lparr>calls := c\<rparr>) = store_ok w"
  "store_ok (w\<lparr>signals := sg\<rparr>) = store_ok w"
  "store_ok (w\<lparr>termination_requests := tr\<rparr>) = store_ok w"
  "store_ok (w\<lparr>procs := ps\<rparr>) = store_ok w"
  "store_ok (w\<lparr>nprocs := n\<rparr>) = store_ok w"
  "store_ok (w\<lparr>queue_closed := q\<rparr>) = store_ok w"
  by (simp_all add: store_ok_def)

lemma doc_ok_updated:
  "map_of kvs ''accept_timestamp'' = Some (PNum t0) \<Longrightarrow>
   doc_ok (PList [h, PDict (updated_model s m w t0 kvs)])"
  by (simp add: doc_ok_def unpack2_def model_ok_def updated_model_lookup)

lemma store_ok_commit: "store_ok w \<Longrightarrow> doc_ok d \<Longrightarrow> store_ok (commit uid rid d ttl w)"
  by (simp add: store_ok_def commit_def docs_ok_upd)

lemma send_resource_update_total:
  assumes "store_ok w"
  shows "\<exists>docs. send_resource_update p s m w = Inr (w\<lparr>documents := docs\<rparr>) \<and>
                store_ok (w\<lparr>documents := docs\<rparr>)"
proof (cases "documents w (user_id p, resource_id p)")
  case None
  have "w\<lparr>documents := documents w\<rparr> = w" by simp
  with None assms send_resource_update_none [OF None, of s m] show ?thesis
    by metis
next
  case (Some x)
  obtain d ttl where x: "x = (d, ttl)" by (cases x)
  with Some have st: "documents w (user_id p, resource_id p) = Some (d, ttl)" by simp
  with assms have "doc_ok d" by (auto simp: store_ok_def dest: docs_okD)
  from doc_okD [OF this] obtain h kvs t0
    where u: "unpack2 d = Inr (h, PDict kvs)"
      and a: "map_of kvs ''accept_timestamp'' = Some (PNum t0)"
    by blast
  let ?d = "PList [h, PDict (updated_model s m w t0 kvs)]"
  let ?ttl = "REDIS_RESOURCE_EXPIRE_TIME (config p)"
  have r: "send_resource_update p s m w = Inr (commit (user_id p) (resource_id p) ?d ?ttl w)"
    by (rule send_resource_update_some [OF st u a])
  have ok: "store_ok (commit (user_id p) (resource_id p) ?d ?ttl w)"
    by (rule store_ok_commit [OF assms doc_ok_updated [OF a]])
  show ?thesis
    using r ok unfolding commit_def by blast
qed

lemma terminate_not_alive:
  "procs w (process p) \<noteq> Alive \<Longrightarrow>
   terminate p s m w = send_resource_update p s m (before_update p s m w)"
  by (simp add: terminate_def before_update_def Let_def is_alive_def commit_termination_def
      sleep_not_alive)

lemma terminate_total:
  assumes "store_ok w"
  shows "\<exists>w'. terminate p s m w = Inr w' \<and> store_ok w' \<and>
           calls w' = calls w @ [Terminate (process p) s m] \<and>
           termination_requests w' = termination_requests w @ [(user_id p, resource_id p)] \<and>
           nprocs w' = nprocs w \<and> queue_closed w' = queue_closed w \<and>
           signals w' = signals w @ (if procs (before_update p s m w) (process p) = Alive
                                     then [process p] else []) \<and>
           (\<forall>h. procs w h \<noteq> Alive \<longrightarrow> procs w' h = procs w h)"
proof -
  let ?w2 = "before_update p s m w"
  let ?w3 = "if is_alive p ?w2 then process_terminate (process p) ?w2 else ?w2"
  have t: "terminate p s m w = send_resource_update p s m ?w3"
    by (simp add: terminate_def before_update_def Let_def)
  have ok2: "store_ok ?w2"
    unfolding before_update_def commit_termination_def
    by (rule store_ok_sleep) (simp add: assms)
  then have ok3: "store_ok ?w3" by (simp add: process_terminate_def)
  from send_resource_update_total [OF ok3, of p s m] obtain docs
    where r: "send_resource_update p s m ?w3 = Inr (?w3\<lparr>documents := docs\<rparr>)"
      and ok: "store_ok (?w3\<lparr>documents := docs\<rparr>)"
    by blast
  have p: "\<forall>h. procs w h \<noteq> Alive \<longrightarrow> procs ?w2 h = procs w h"
    by (simp add: before_update_def commit_termination_def sleep_not_alive)
  show ?thesis
    apply (rule exI [of _ "?w3\<lparr>documents := docs\<rparr>"])
    using t r ok p
    by (simp add: process_terminate_def is_alive_def)
       (simp add: before_update_def commit_termination_def)
qed

subsection \<open>C2: the final status update\<close>

text \<open>
  Claim C2, as amended. For every call of \<^verbatim>\<open>_send_resource_update\<close> with status \<open>s\<close> and
  message \<open>m\<close> by a wrapper with key (user\_id, resource\_id): if the store holds no
  document for the key, the world is left as it is and nothing is raised. If it holds a
  document whose model has the numeric \<open>accept_timestamp\<close> \<open>t0\<close>, the call commits a
  document for the same key, with the configured expiration
  \<open>REDIS_RESOURCE_EXPIRE_TIME\<close>, whose \<open>status\<close> is \<open>s\<close>, whose \<open>message\<close> is the text
  "The process was terminated by the server: " followed by \<open>m\<close>, whose \<open>timestamp\<close> is the
  clock's reading, whose \<open>datetime\<close> is that reading rendered as a string, whose
  \<open>time_delta\<close> is the reading minus \<open>t0\<close>, and whose \<open>accept_timestamp\<close> is still \<open>t0\<close>.
\<close>

theorem final_status_update:
  "(logger_get (user_id p) (resource_id p) w = None \<longrightarrow> send_resource_update p s m w = Inr w) \<and>
   (stored_field (user_id p, resource_id p) ''accept_timestamp'' w = Some (PNum t0) \<longrightarrow>
     (\<exists>d w'. send_resource_update p s m w = Inr w' \<and>
        w' = commit (user_id p) (resource_id p) d (REDIS_RESOURCE_EXPIRE_TIME (config p)) w \<and>
        stored_field (user_id p, resource_id p) ''status'' w' = Some (PStr s) \<and>
        stored_field (user_id p, resource_id p) ''message'' w' =
          Some (PStr (''The process was terminated by the server: '' @ m)) \<and>
        stored_field (user_id p, resource_id p) ''timestamp'' w' = Some (PNum (now w)) \<and>
        stored_field (user_id p, resource_id p) ''datetime'' w' =
          Some (PStr (str_datetime w (now w))) \<and>
        stored_field (user_id p, resource_id p) ''time_delta'' w' = Some (PNum (now w - t0)) \<and>
        stored_field (user_id p, resource_id p) ''accept_timestamp'' w' = Some (PNum t0) \<and>
        stored_ttl (user_id p, resource_id p) w' = Some (REDIS_RESOURCE_EXPIRE_TIME (config p))))"
proof (intro conjI impI)
  assume "logger_get (user_id p) (resource_id p) w = None"
  then show "send_resource_update p s m w = Inr w"
    by (simp add: send_resource_update_def)
next
  assume "stored_field (user_id p, resource_id p) ''accept_timestamp'' w = Some (PNum t0)"
  from stored_fieldD [OF this] obtain d ttl h kvs
    where d: "documents w (user_id p, resource_id p) = Some (d, ttl)"
      and u: "unpack2 d = Inr (h, PDict kvs)"
      and a: "map_of kvs ''accept_timestamp'' = Some (PNum t0)"
    by blast
  let ?d = "PList [h, PDict (updated_model s m w t0 kvs)]"
  let ?w = "commit (user_id p) (resource_id p) ?d (REDIS_RESOURCE_EXPIRE_TIME (config p)) w"
  have r: "send_resource_update p s m w = Inr ?w"
    by (rule send_resource_update_some [OF d u a])
  have f: "\<And>f. stored_field (user_id p, resource_id p) f ?w = map_of (updated_model s m w t0 kvs) f"
    by (rule stored_field_commit)
  show "\<exists>d w'. send_resource_update p s m w = Inr w' \<and>
        w' = commit (user_id p) (resource_id p) d (REDIS_RESOURCE_EXPIRE_TIME (config p)) w \<and>
        stored_field (user_id p, resource_id p) ''status'' w' = Some (PStr s) \<and>
        stored_field (user_id p, resource_id p) ''message'' w' =
          Some (PStr (''The process was terminated by the server: '' @ m)) \<and>
        stored_field (user_id p, resource_id p) ''timestamp'' w' = Some (PNum (now w)) \<and>
        stored_field (user_id p, resource_id p) ''datetime'' w' =
          Some (PStr (str_datetime w (now w))) \<and>
        stored_field (user_id p, resource_id p) ''time_delta'' w' = Some (PNum (now w - t0)) \<and>
        stored_field (user_id p, resource_id p) ''accept_timestamp'' w' = Some (PNum t0) \<and>
        stored_ttl (user_id p, resource_id p) w' = Some (REDIS_RESOURCE_EXPIRE_TIME (config p))"
    apply (rule exI [of _ ?d])
    apply (rule exI [of _ ?w])
    apply (simp only: f r updated_model_lookup stored_ttl_commit)
    apply (simp add: a)
    done
qed

text \<open>The stored document of the example world has \<open>accept_timestamp = 40\<close>.\<close>

lemma example_accept:
  "stored_field (''u'', ''r'') ''accept_timestamp'' example_world = Some (PNum 40)"
  by (simp add: stored_field_def example_world_def unpack2_def)

text \<open>Claim C2 at the example world: accepted at 40, terminated at 100.\<close>

theorem final_status_update_witness:
  "stored_field (''u'', ''r'') ''accept_timestamp'' example_world = Some (PNum 40) \<and>
   (\<exists>w'. send_resource_update (example_process 0) ''error'' ''m'' example_world = Inr w' \<and>
     stored_field (''u'', ''r'') ''status'' w' = Some (PStr ''error'') \<and>
     stored_field (''u'', ''r'') ''time_delta'' w' = Some (PNum 60) \<and>
     stored_ttl (''u'', ''r'') w' = Some 864000)"
  using final_status_update [where p = "example_process 0" and w = example_world and ?t0.0 = 40
      and s = "''error''" and m = "''m''"] example_accept
  by (auto simp: example_process_def example_world_def example_config_def)

text \<open>Claim C2 as stated asks for the stored \<open>message\<close> to equal \<open>m\<close>. After
  \<^verbatim>\<open>_send_resource_update(status="error", message="m")\<close> on the example world the stored
  message is the prefixed text, not \<open>m\<close>.\<close>

theorem message_is_prefixed:
  "map_sum id (stored_field (''u'', ''r'') ''message'')
     (send_resource_update (example_process 0) ''error'' ''m'' example_world) =
     Inr (Some (PStr ''The process was terminated by the server: m'')) \<and>
   map_sum id (stored_field (''u'', ''r'') ''message'')
     (send_resource_update (example_process 0) ''error'' ''m'' example_world) \<noteq>
     Inr (Some (PStr ''m''))"
  by (simp add: send_resource_update_def logger_get_def example_process_def example_world_def
      unpack2_def commit_def stored_field_def)

lemma send_resource_update_writes:
  assumes "store_ok w" and "documents w (user_id p, resource_id p) = Some x"
  shows "\<exists>w'. send_resource_update p s m w = Inr w' \<and>
           stored_field (user_id p, resource_id p) ''status'' w' = Some (PStr s) \<and>
           stored_field (user_id p, resource_id p) ''message'' w' =
             Some (PStr (''The process was terminated by the server: '' @ m))"
proof -
  obtain d ttl where x: "x = (d, ttl)" by (cases x)
  with assms have st: "documents w (user_id p, resource_id p) = Some (d, ttl)" by simp
  with assms have "doc_ok d" by (auto simp: store_ok_def dest: docs_okD)
  from doc_okD [OF this] obtain h kvs t0
    where u: "unpack2 d = Inr (h, PDict kvs)"
      and a: "map_of kvs ''accept_timestamp'' = Some (PNum t0)"
    by blast
  show ?thesis
    by (simp add: send_resource_update_some [OF st u a] stored_field_commit updated_model_lookup)
qed

subsection \<open>C4, C5: \<^verbatim>\<open>check_timeout\<close>\<close>

text \<open>
  Claim C5. For every wrapper with \<open>started = True\<close>, \<^verbatim>\<open>check_timeout\<close> returns \<^verbatim>\<open>False\<close>
  ("not evicted") whatever the clock, the enqueue time and the timeout are, and leaves
  the world as it was: \<^verbatim>\<open>terminate\<close> is not invoked.
\<close>

theorem check_timeout_started:
  "started p = True \<Longrightarrow> check_timeout p w = Inr (False, w)"
  by (simp add: check_timeout_def)

text \<open>Claim C5 at a started wrapper that was enqueued 100 seconds ago with timeout 1.\<close>

theorem check_timeout_started_witness:
  "started (example_process 0\<lparr>started := True, init_time := 0, timeout := PNum 1\<rparr>) = True \<and>
   check_timeout (example_process 0\<lparr>started := True, init_time := 0, timeout := PNum 1\<rparr>)
     example_world =
   Inr (False, example_world)"
  using check_timeout_started
    [of "example_process 0\<lparr>started := True, init_time := 0, timeout := PNum 1\<rparr>" example_world]
  by simp

text \<open>
  Claim C4. For every wrapper with \<open>started = False\<close> and a numeric timeout \<open>t\<close>:
  when \<open>now - init_time\<close> is not greater than \<open>t\<close>, \<^verbatim>\<open>check_timeout\<close> returns \<^verbatim>\<open>False\<close> and
  changes nothing; when it is greater, \<^verbatim>\<open>check_timeout\<close> is the call
  \<^verbatim>\<open>terminate(status="timeout", ...)\<close> followed by \<^verbatim>\<open>return True\<close>. With a well-formed status
  store that call returns, so \<^verbatim>\<open>check_timeout\<close> reports eviction if and only if
  \<open>now - init_time > t\<close>, and when it does the call \<^verbatim>\<open>terminate\<close> with status "timeout" is
  in the history.
\<close>

theorem check_timeout_waiting:
  assumes "started p = False" and "timeout p = PNum t"
  shows "(\<not> t < now w - init_time p \<longrightarrow> check_timeout p w = Inr (False, w)) \<and>
         (t < now w - init_time p \<longrightarrow>
            check_timeout p w =
              then_do (terminate p ''timeout'' (timeout_message (str_int (py_int t))) w)
                (\<lambda>w'. Inr (True, w'))) \<and>
         (store_ok w \<longrightarrow>
            (\<exists>b w'. check_timeout p w = Inr (b, w') \<and>
               (b \<longleftrightarrow> t < now w - init_time p) \<and>
               (b \<longrightarrow> calls w' =
                  calls w @ [Terminate (process p) ''timeout''
                               (timeout_message (str_int (py_int t)))]) \<and>
               (\<not> b \<longrightarrow> w' = w)))"
proof (intro conjI impI)
  assume "\<not> t < now w - init_time p"
  with assms show "check_timeout p w = Inr (False, w)"
    by (simp add: check_timeout_def)
next
  assume "t < now w - init_time p"
  with assms show "check_timeout p w =
      then_do (terminate p ''timeout'' (timeout_message (str_int (py_int t))) w)
        (\<lambda>w'. Inr (True, w'))"
    by (simp add: check_timeout_def)
next
  assume ok: "store_ok w"
  let ?msg = "timeout_message (str_int (py_int t))"
  show "\<exists>b w'. check_timeout p w = Inr (b, w') \<and>
               (b \<longleftrightarrow> t < now w - init_time p) \<and>
               (b \<longrightarrow> calls w' = calls w @ [Terminate (process p) ''timeout'' ?msg]) \<and>
               (\<not> b \<longrightarrow> w' = w)"
  proof (cases "t < now w - init_time p")
    case True
    from terminate_total [OF ok, of p "''timeout''" ?msg] obtain w'
      where "terminate p ''timeout'' ?msg w = Inr w'"
        and "calls w' = calls w @ [Terminate (process p) ''timeout'' ?msg]"
      by blast
    with True assms show ?thesis
      by (intro exI [of _ True] exI [of _ w']) (simp add: check_timeout_def)
  next
    case False
    with assms show ?thesis
      by (intro exI [of _ False] exI [of _ w]) (simp add: check_timeout_def)
  qed
qed

text \<open>The example world's store is well-formed.\<close>

lemma example_store_ok: "store_ok example_world"
  by (simp add: store_ok_def docs_ok_def example_world_def doc_ok_def unpack2_def model_ok_def)

text \<open>Claim C4 at the example: timeout 10, the clock at 100; enqueued at 50 the wrapper is
  evicted, enqueued at 95 it is not.\<close>

theorem check_timeout_waiting_witness:
  "started (example_process 0) = False \<and> timeout (example_process 0) = PNum 10 \<and>
   store_ok example_world \<and>
   (\<exists>w'. check_timeout (example_process 0) example_world = Inr (True, w') \<and>
      calls w' = [Terminate 0 ''timeout''
        ''Processes exceeded timeout (10) in waiting queue and was terminated.'']) \<and>
   check_timeout (example_process 0\<lparr>init_time := 95\<rparr>) example_world = Inr (False, example_world)"
proof -
  have a: "started (example_process 0) = False" "timeout (example_process 0) = PNum 10"
    and b: "started (example_process 0\<lparr>init_time := 95\<rparr>) = False"
      "timeout (example_process 0\<lparr>init_time := 95\<rparr>) = PNum 10"
    by (simp_all add: example_process_def)
  have m: "timeout_message (str_int (py_int 10)) =
      ''Processes exceeded timeout (10) in waiting queue and was terminated.''"
    by (simp add: timeout_message_def str_int_def py_int_def digits.simps)
  have l: "(10::real) < now example_world - init_time (example_process 0)"
    and n: "\<not> (10::real) < now example_world - init_time (example_process 0\<lparr>init_time := 95\<rparr>)"
    and c: "calls example_world = []" "process (example_process 0) = 0"
    by (simp_all add: example_world_def example_process_def)
  show ?thesis
    using check_timeout_waiting [OF a, of example_world]
      check_timeout_waiting [OF b, of example_world] example_store_ok a l n
    by (auto simp: m c)
qed

subsection \<open>C9: \<^verbatim>\<open>terminate\<close> on a process that is not alive\<close>

text \<open>
  Claim C9. When the wrapper's process is not alive (it has exited, or was never
  started), \<^verbatim>\<open>terminate(status, message)\<close> is the final status update made in the world
  after the termination request and the grace period, with no SIGTERM sent: the process
  is still not alive after the grace period, so \<^verbatim>\<open>Process.terminate()\<close> is skipped. With a
  well-formed status store the call returns, no signal has been sent, and a document
  stored for the wrapper's key carries the supplied status.
\<close>

theorem terminate_after_exit:
  assumes "procs w (process p) \<noteq> Alive"
  shows "terminate p s m w = send_resource_update p s m (before_update p s m w) \<and>
         signals (before_update p s m w) = signals w \<and>
         (store_ok w \<longrightarrow>
            (\<exists>w'. terminate p s m w = Inr w' \<and> signals w' = signals w \<and>
               (documents (before_update p s m w) (user_id p, resource_id p) \<noteq> None \<longrightarrow>
                  stored_field (user_id p, resource_id p) ''status'' w' = Some (PStr s))))"
proof (intro conjI impI)
  show t: "terminate p s m w = send_resource_update p s m (before_update p s m w)"
    by (rule terminate_not_alive [OF assms])
  show "signals (before_update p s m w) = signals w"
    by (simp add: before_update_def commit_termination_def)
  assume ok: "store_ok w"
  have na: "procs (before_update p s m w) (process p) \<noteq> Alive"
    using assms by (simp add: before_update_def commit_termination_def sleep_not_alive)
  from terminate_total [OF ok, of p s m] na obtain w'
    where r: "terminate p s m w = Inr w'" and sg: "signals w' = signals w"
    by auto
  have ok2: "store_ok (before_update p s m w)"
    unfolding before_update_def commit_termination_def
    by (rule store_ok_sleep) (simp add: ok)
  have "documents (before_update p s m w) (user_id p, resource_id p) \<noteq> None \<longrightarrow>
          stored_field (user_id p, resource_id p) ''status'' w' = Some (PStr s)"
  proof
    assume "documents (before_update p s m w) (user_id p, resource_id p) \<noteq> None"
    then obtain x where "documents (before_update p s m w) (user_id p, resource_id p) = Some x"
      by auto
    from send_resource_update_writes [OF ok2 this, of s m] t r
    show "stored_field (user_id p, resource_id p) ''status'' w' = Some (PStr s)"
      by auto
  qed
  with r sg show "\<exists>w'. terminate p s m w = Inr w' \<and> signals w' = signals w \<and>
               (documents (before_update p s m w) (user_id p, resource_id p) \<noteq> None \<longrightarrow>
                  stored_field (user_id p, resource_id p) ''status'' w' = Some (PStr s))"
    by blast
qed

text \<open>Claim C9 at the example world with every process exited with code 0.\<close>

theorem terminate_after_exit_witness:
  "procs (example_world\<lparr>procs := (\<lambda>h. Exited 0)\<rparr>) (process (example_process 0)) \<noteq> Alive \<and>
   store_ok (example_world\<lparr>procs := (\<lambda>h. Exited 0)\<rparr>) \<and>
   (\<exists>w'. terminate (example_process 0) ''error'' ''m'' (example_world\<lparr>procs := (\<lambda>h. Exited 0)\<rparr>)
            = Inr w' \<and>
      signals w' = [] \<and> stored_field (''u'', ''r'') ''status'' w' = Some (PStr ''error''))"
proof -
  let ?w = "example_world\<lparr>procs := (\<lambda>h. Exited 0)\<rparr>"
  have a: "procs ?w (process (example_process 0)) \<noteq> Alive" by simp
  have ok: "store_ok ?w" using example_store_ok by simp
  have d: "documents (before_update (example_process 0) ''error'' ''m'' ?w)
             (user_id (example_process 0), resource_id (example_process 0)) \<noteq> None"
    by (simp add: before_update_def commit_termination_def sleep_def example_world_def
        example_process_def)
  have s: "signals ?w = []" "user_id (example_process 0) = ''u''"
    "resource_id (example_process 0) = ''r''"
    by (simp_all add: example_world_def example_process_def)
  from terminate_after_exit [OF a, of "''error''" "''m''"] ok d obtain w'
    where "terminate (example_process 0) ''error'' ''m'' ?w = Inr w'"
      and "signals w' = signals ?w"
      and "stored_field (user_id (example_process 0), resource_id (example_process 0))
             ''status'' w' = Some (PStr ''error'')"
    by blast
  with a ok show ?thesis
    by (simp add: s)
qed

subsection \<open>What \<^verbatim>\<open>terminate\<close> leaves unchanged\<close>

lemma then_do_eq_Inr: "then_do m f = Inr y \<longleftrightarrow> (\<exists>x. m = Inr x \<and> f x = Inr y)"
  by (cases m) simp_all

lemma send_resource_update_frame:
  "send_resource_update p s m w = Inr w' \<Longrightarrow> \<exists>docs. w' = w\<lparr>documents := docs\<rparr>"
proof (cases "logger_get (user_id p) (resource_id p) w")
  case None
  assume "send_resource_update p s m w = Inr w'"
  with None have "w' = w\<lparr>documents := documents w\<rparr>"
    by (simp add: send_resource_update_def)
  then show ?thesis by (rule exI [of _ "documents w"])
next
  case (Some d)
  assume "send_resource_update p s m w = Inr w'"
  with Some show ?thesis
    by (auto simp: send_resource_update_def then_do_eq_Inr commit_def)
qed

lemma terminate_frame:
  assumes "terminate p s m w = Inr w'"
  shows "calls w' = calls w @ [Terminate (process p) s m]"
    and "termination_requests w' = termination_requests w @ [(user_id p, resource_id p)]"
    and "nprocs w' = nprocs w"
    and "queue_closed w' = queue_closed w"
    and "procs w h \<noteq> Alive \<Longrightarrow> procs w' h = procs w h"
proof -
  let ?w2 = "before_update p s m w"
  let ?w3 = "if is_alive p ?w2 then process_terminate (process p) ?w2 else ?w2"
  have "terminate p s m w = send_resource_update p s m ?w3"
    by (simp add: terminate_def before_update_def Let_def)
  with assms obtain docs where w': "w' = ?w3\<lparr>documents := docs\<rparr>"
    using send_resource_update_frame by metis
  show "calls w' = calls w @ [Terminate (process p) s m]"
    and "termination_requests w' = termination_requests w @ [(user_id p, resource_id p)]"
    and "nprocs w' = nprocs w"
    and "queue_closed w' = queue_closed w"
    by (simp_all add: w' process_terminate_def before_update_def commit_termination_def)
  show "procs w h \<noteq> Alive \<Longrightarrow> procs w' h = procs w h"
    by (simp add: w' process_terminate_def before_update_def commit_termination_def
        sleep_not_alive)
qed

subsection \<open>Removing wrappers from a set\<close>

lemma set_remove_filter:
  "set_remove x s = Inr s' \<Longrightarrow> s' = filter (\<lambda>y. process y \<noteq> process x) s"
  by (simp add: set_remove_def split: if_splits)

lemma set_remove_member:
  "process x \<in> process ` set s \<Longrightarrow>
   set_remove x s = Inr (filter (\<lambda>y. process y \<noteq> process x) s)"
  by (simp add: set_remove_def)

lemma remove_each_length:
  "remove_each rm s = Inr s' \<Longrightarrow> length s' \<le> length s"
proof (induction rm arbitrary: s)
  case Nil
  then show ?case by simp
next
  case (Cons x rm)
  from Cons.prems obtain s1 where a: "set_remove x s = Inr s1" and b: "remove_each rm s1 = Inr s'"
    by (auto simp: then_do_eq_Inr)
  from set_remove_filter [OF a] have "length s1 \<le> length s" by simp
  with Cons.IH [OF b] show ?case by simp
qed

lemma remove_each_filter:
  "distinct (map process rm) \<Longrightarrow> process ` set rm \<subseteq> process ` set s \<Longrightarrow>
   remove_each rm s = Inr (filter (\<lambda>y. process y \<notin> process ` set rm) s)"
proof (induction rm arbitrary: s)
  case Nil
  then show ?case by simp
next
  case (Cons x rm)
  let ?s1 = "filter (\<lambda>y. process y \<noteq> process x) s"
  from Cons.prems have a: "set_remove x s = Inr ?s1"
    by (intro set_remove_member) simp
  from Cons.prems have d: "distinct (map process rm)" and nx: "process x \<notin> process ` set rm"
    by simp_all
  have sub: "process ` set rm \<subseteq> process ` set ?s1"
  proof
    fix h assume h: "h \<in> process ` set rm"
    with Cons.prems(2) have "h \<in> process ` set s" by auto
    moreover from h nx have "h \<noteq> process x" by metis
    ultimately show "h \<in> process ` set ?s1" by auto
  qed
  have "remove_each rm ?s1 = Inr (filter (\<lambda>y. process y \<notin> process ` set rm) ?s1)"
    by (rule Cons.IH [OF d sub])
  also have "filter (\<lambda>y. process y \<notin> process ` set rm) ?s1 =
             filter (\<lambda>y. process y \<notin> process ` set (x # rm)) s"
    by (auto intro: filter_cong)
  finally show ?case by (simp add: a)
qed

lemma filter_by_handle:
  "distinct (map process s) \<Longrightarrow>
   filter (\<lambda>y. process y \<notin> process ` set (filter P s)) s = filter (\<lambda>y. \<not> P y) s"
proof (rule filter_cong [OF refl])
  fix y assume d: "distinct (map process s)" and y: "y \<in> set s"
  have "process y \<in> process ` set (filter P s) \<longleftrightarrow> P y"
  proof
    assume "process y \<in> process ` set (filter P s)"
    then obtain z where z: "z \<in> set s" "P z" "process z = process y" by auto
    from d have "inj_on process (set s)" by (simp add: distinct_map)
    with z y have "z = y" by (auto dest: inj_onD)
    with z show "P y" by simp
  next
    assume "P y" with y show "process y \<in> process ` set (filter P s)" by auto
  qed
  then show "(process y \<notin> process ` set (filter P s)) = (\<not> P y)" by simp
qed

lemma reap_filter:
  assumes "distinct (map process (running_procs st))"
  shows "reap st = Inr (st\<lparr>running_procs := filter (\<lambda>p. \<not> finished (env st) p) (running_procs st)\<rparr>)"
proof -
  let ?rm = "filter (finished (env st)) (running_procs st)"
  have "remove_each ?rm (running_procs st) =
          Inr (filter (\<lambda>y. process y \<notin> process ` set ?rm) (running_procs st))"
    using assms by (intro remove_each_filter) (auto simp: distinct_map_filter)
  with filter_by_handle [OF assms, of "finished (env st)"] show ?thesis
    by (simp add: reap_def)
qed

lemma reap_length:
  "reap st = Inr st' \<Longrightarrow> length (running_procs st') \<le> length (running_procs st)"
  by (auto simp: reap_def Let_def then_do_eq_Inr dest: remove_each_length)

subsection \<open>The steps of the loop body\<close>

lemma then_do_InrD: "then_do m f = Inr y \<Longrightarrow> \<exists>x. m = Inr x \<and> f x = Inr y"
  by (cases m) simp_all

lemma set_add_length: "length (set_add x s) \<le> Suc (length s)"
  by (simp add: set_add_def)

lemma submission_cases:
  assumes "submission d st = Inr st'"
  shows "st' = st \<or>
         (\<exists>func tmo args p w. unpack3 d = Inr (func, tmo, args) \<and>
            EnqueuedProcess func tmo args (env st) = Inr (p, w) \<and>
            st' = st\<lparr>waiting_processes := set_add p (waiting_processes st), env := w\<rparr>)"
proof -
  from then_do_InrD [OF assms [unfolded submission_def]] obtain sub
    where r: "(if sub then
         then_do (unpack3 d) (\<lambda>(func, tmo, args).
         then_do (EnqueuedProcess func tmo args (env st)) (\<lambda>(enqproc, w).
           Inr (st\<lparr>waiting_processes := set_add enqproc (waiting_processes st), env := w\<rparr>)))
       else Inr st) = Inr st'"
    by blast
  show ?thesis
  proof (cases sub)
    case False
    with r show ?thesis by simp
  next
    case True
    with r have "then_do (unpack3 d) (\<lambda>(func, tmo, args).
         then_do (EnqueuedProcess func tmo args (env st)) (\<lambda>(enqproc, w).
           Inr (st\<lparr>waiting_processes := set_add enqproc (waiting_processes st), env := w\<rparr>)))
        = Inr st'" by simp
    from then_do_InrD [OF this] obtain x where u: "unpack3 d = Inr x"
      and r2: "(case x of (func, tmo, args) \<Rightarrow>
         then_do (EnqueuedProcess func tmo args (env st)) (\<lambda>(enqproc, w).
           Inr (st\<lparr>waiting_processes := set_add enqproc (waiting_processes st), env := w\<rparr>))) = Inr st'"
      by blast
    obtain func tmo args where x: "x = (func, tmo, args)" by (cases x)
    from r2 have "then_do (EnqueuedProcess func tmo args (env st)) (\<lambda>(enqproc, w).
           Inr (st\<lparr>waiting_processes := set_add enqproc (waiting_processes st), env := w\<rparr>)) = Inr st'"
      by (simp add: x)
    from then_do_InrD [OF this] obtain y where e: "EnqueuedProcess func tmo args (env st) = Inr y"
      and r3: "(case y of (enqproc, w) \<Rightarrow>
           Inr (st\<lparr>waiting_processes := set_add enqproc (waiting_processes st), env := w\<rparr>)) =
         (Inr st' :: error + loop_state)"
      by blast
    obtain p w where y: "y = (p, w)" by (cases y)
    from r3 have "st' = st\<lparr>waiting_processes := set_add p (waiting_processes st), env := w\<rparr>"
      by (simp add: y)
    with u e x y show ?thesis by blast
  qed
qed

lemma submission_running:
  "submission d st = Inr st' \<Longrightarrow> running_procs st' = running_procs st"
  by (drule submission_cases) auto

lemma admission_idle:
  "\<not> (int (length (running_procs st)) < NUMBER_OF_WORKERS cfg \<and> waiting_processes st \<noteq> []) \<Longrightarrow>
   admission cfg k st = Inr st"
  by (auto simp: admission_def)

lemma admission_cases:
  assumes "admission cfg k st = Inr st'"
    and "int (length (running_procs st)) < NUMBER_OF_WORKERS cfg"
    and "waiting_processes st \<noteq> []"
  shows "\<exists>p rest p' w. set_pop k (waiting_processes st) = Inr (p, rest) \<and>
           start p (env st) = Inr (p', w) \<and>
           st' = st\<lparr>waiting_processes := rest,
                    running_procs := set_add p' (running_procs st), env := w\<rparr>"
proof -
  from assms have "then_do (set_pop k (waiting_processes st)) (\<lambda>(enqproc, rest).
          then_do (start enqproc (env st)) (\<lambda>(enqproc', w).
            Inr (st\<lparr>waiting_processes := rest,
                    running_procs := set_add enqproc' (running_procs st),
                    env := w\<rparr>))) = Inr st'"
    by (simp add: admission_def)
  from then_do_InrD [OF this] obtain x where a: "set_pop k (waiting_processes st) = Inr x"
    and r: "(case x of (enqproc, rest) \<Rightarrow>
          then_do (start enqproc (env st)) (\<lambda>(enqproc', w).
            Inr (st\<lparr>waiting_processes := rest,
                    running_procs := set_add enqproc' (running_procs st),
                    env := w\<rparr>))) = Inr st'"
    by blast
  obtain p rest where x: "x = (p, rest)" by (cases x)
  from r have "then_do (start p (env st)) (\<lambda>(enqproc', w).
            Inr (st\<lparr>waiting_processes := rest,
                    running_procs := set_add enqproc' (running_procs st),
                    env := w\<rparr>)) = Inr st'"
    by (simp add: x)
  from then_do_InrD [OF this] obtain y where b: "start p (env st) = Inr y"
    and r2: "(case y of (enqproc', w) \<Rightarrow>
            Inr (st\<lparr>waiting_processes := rest,
                    running_procs := set_add enqproc' (running_procs st),
                    env := w\<rparr>)) = (Inr st' :: error + loop_state)"
    by blast
  obtain p' w where y: "y = (p', w)" by (cases y)
  from r2 have "st' = st\<lparr>waiting_processes := rest,
                    running_procs := set_add p' (running_procs st), env := w\<rparr>"
    by (simp add: y)
  with a b x y show ?thesis by blast
qed

lemma evict_cases:
  assumes "evict st = Inr st'"
  shows "\<exists>rm w ws. check_each (waiting_processes st) (env st) = Inr (rm, w) \<and>
           remove_each rm (waiting_processes st) = Inr ws \<and>
           st' = st\<lparr>waiting_processes := ws, env := w\<rparr>"
proof -
  from then_do_InrD [OF assms [unfolded evict_def]] obtain x
    where a: "check_each (waiting_processes st) (env st) = Inr x"
      and r: "(case x of (procs_to_remove, w) \<Rightarrow>
         then_do (remove_each procs_to_remove (waiting_processes st)) (\<lambda>ws.
           Inr (st\<lparr>waiting_processes := ws, env := w\<rparr>))) = Inr st'"
    by blast
  obtain rm w where x: "x = (rm, w)" by (cases x)
  from r have "then_do (remove_each rm (waiting_processes st)) (\<lambda>ws.
           Inr (st\<lparr>waiting_processes := ws, env := w\<rparr>)) = Inr st'"
    by (simp add: x)
  from then_do_InrD [OF this] obtain ws
    where "remove_each rm (waiting_processes st) = Inr ws"
      and "st' = st\<lparr>waiting_processes := ws, env := w\<rparr>"
    by auto
  with a x show ?thesis by blast
qed

lemma evict_running: "evict st = Inr st' \<Longrightarrow> running_procs st' = running_procs st"
  by (drule evict_cases) auto

lemma loop_body_cases:
  assumes "loop_body cfg tk st = Inr (Continue st')"
  shows "\<exists>st1 st2 st3. is_stop (data tk) = Inr False \<and>
           submission (data tk) (st\<lparr>env := queue_get (env st)\<rparr>) = Inr st1 \<and>
           admission cfg (pick tk) st1 = Inr st2 \<and> reap st2 = Inr st3 \<and> evict st3 = Inr st'"
proof -
  let ?st0 = "st\<lparr>env := queue_get (env st)\<rparr>"
  let ?rest = "then_do (submission (data tk) ?st0) (\<lambda>st1.
             then_do (admission cfg (pick tk) st1) (\<lambda>st2.
             then_do (reap st2) (\<lambda>st3.
             then_do (evict st3) (\<lambda>st4. Inr (Continue st4)))))"
  from assms have "then_do (is_stop (data tk)) (\<lambda>stop.
           if stop then
             then_do (shutdown ?st0) (\<lambda>st'. Inr (Stopped (st'\<lparr>env := queue_close (env st')\<rparr>)))
           else ?rest) = Inr (Continue st')"
    by (simp add: loop_body_def Let_def)
  from then_do_InrD [OF this] obtain stop where s: "is_stop (data tk) = Inr stop"
    and r: "(if stop then
             then_do (shutdown ?st0) (\<lambda>st'. Inr (Stopped (st'\<lparr>env := queue_close (env st')\<rparr>)))
           else ?rest) = Inr (Continue st')"
    by blast
  have ns: "\<not> stop"
  proof
    assume stop
    with r have "then_do (shutdown ?st0)
        (\<lambda>st'. Inr (Stopped (st'\<lparr>env := queue_close (env st')\<rparr>))) = Inr (Continue st')"
      by simp
    from then_do_InrD [OF this] show False by auto
  qed
  with r have "?rest = Inr (Continue st')" by simp
  from then_do_InrD [OF this] obtain st1 where a: "submission (data tk) ?st0 = Inr st1"
    and r1: "then_do (admission cfg (pick tk) st1) (\<lambda>st2.
             then_do (reap st2) (\<lambda>st3.
             then_do (evict st3) (\<lambda>st4. Inr (Continue st4)))) = Inr (Continue st')"
    by blast
  from then_do_InrD [OF r1] obtain st2 where b: "admission cfg (pick tk) st1 = Inr st2"
    and r2: "then_do (reap st2) (\<lambda>st3.
             then_do (evict st3) (\<lambda>st4. Inr (Continue st4))) = Inr (Continue st')"
    by blast
  from then_do_InrD [OF r2] obtain st3 where c: "reap st2 = Inr st3"
    and r3: "then_do (evict st3) (\<lambda>st4. Inr (Continue st4)) = Inr (Continue st')"
    by blast
  from then_do_InrD [OF r3] have d: "evict st3 = Inr st'" by auto
  from s ns have "is_stop (data tk) = Inr False" by simp
  with a b c d show ?thesis by blast
qed

lemma upto_admission_cases:
  assumes "upto_admission cfg tk st = Inr (Some st')"
  shows "\<exists>st1. is_stop (data tk) = Inr False \<and>
           submission (data tk) (st\<lparr>env := queue_get (env st)\<rparr>) = Inr st1 \<and>
           admission cfg (pick tk) st1 = Inr st'"
proof -
  let ?st0 = "st\<lparr>env := queue_get (env st)\<rparr>"
  let ?rest = "then_do (submission (data tk) ?st0) (\<lambda>st1.
                then_do (admission cfg (pick tk) st1) (\<lambda>st2. Inr (Some st2)))"
  from assms have "then_do (is_stop (data tk)) (\<lambda>stop. if stop then Inr None else ?rest) =
      Inr (Some st')"
    by (simp add: upto_admission_def Let_def)
  from then_do_InrD [OF this] obtain stop where s: "is_stop (data tk) = Inr stop"
    and r: "(if stop then Inr None else ?rest) = Inr (Some st')"
    by blast
  from r have ns: "\<not> stop" by (cases stop) simp_all
  with r have "?rest = Inr (Some st')" by simp
  from then_do_InrD [OF this] obtain st1 where a: "submission (data tk) ?st0 = Inr st1"
    and r1: "then_do (admission cfg (pick tk) st1) (\<lambda>st2. Inr (Some st2)) = Inr (Some st')"
    by blast
  from then_do_InrD [OF r1] have "admission cfg (pick tk) st1 = Inr st'" by auto
  moreover from s ns have "is_stop (data tk) = Inr False" by simp
  ultimately show ?thesis using a by blast
qed

lemma admission_bound:
  assumes "admission cfg k st = Inr st'"
    and "int (length (running_procs st)) \<le> NUMBER_OF_WORKERS cfg"
  shows "int (length (running_procs st')) \<le> NUMBER_OF_WORKERS cfg"
proof (cases "int (length (running_procs st)) < NUMBER_OF_WORKERS cfg \<and>
              waiting_processes st \<noteq> []")
  case True
  with admission_cases [OF assms(1)] obtain p w
    where "running_procs st' = set_add p (running_procs st)"
    by auto
  with set_add_length [of p "running_procs st"] True show ?thesis by simp
next
  case False
  from admission_idle [OF this, of k] assms show ?thesis by simp
qed

lemma upto_admission_bound:
  assumes "upto_admission cfg tk st = Inr (Some st')"
    and "int (length (running_procs st)) \<le> NUMBER_OF_WORKERS cfg"
  shows "int (length (running_procs st')) \<le> NUMBER_OF_WORKERS cfg"
proof -
  from upto_admission_cases [OF assms(1)] obtain st1
    where s: "submission (data tk) (st\<lparr>env := queue_get (env st)\<rparr>) = Inr st1"
      and a: "admission cfg (pick tk) st1 = Inr st'"
    by blast
  from submission_running [OF s] assms(2)
  have "int (length (running_procs st1)) \<le> NUMBER_OF_WORKERS cfg" by simp
  from admission_bound [OF a this] show ?thesis .
qed

lemma loop_body_bound:
  assumes "loop_body cfg tk st = Inr (Continue st')"
    and "int (length (running_procs st)) \<le> NUMBER_OF_WORKERS cfg"
  shows "int (length (running_procs st')) \<le> NUMBER_OF_WORKERS cfg"
proof -
  from loop_body_cases [OF assms(1)] obtain st1 st2 st3
    where s: "submission (data tk) (st\<lparr>env := queue_get (env st)\<rparr>) = Inr st1"
      and a: "admission cfg (pick tk) st1 = Inr st2"
      and r: "reap st2 = Inr st3" and e: "evict st3 = Inr st'"
    by blast
  from submission_running [OF s] assms(2)
  have "int (length (running_procs st1)) \<le> NUMBER_OF_WORKERS cfg" by simp
  from admission_bound [OF a this] reap_length [OF r] evict_running [OF e]
  show ?thesis by simp
qed

lemma run_Continue_Cons:
  assumes "run cfg (tk # tks) st = Inr (Continue st')"
  shows "\<exists>st1. loop_body cfg tk st = Inr (Continue st1) \<and> run cfg tks st1 = Inr (Continue st')"
proof (cases "loop_body cfg tk st")
  case (Inl e)
  with assms show ?thesis by simp
next
  case (Inr out)
  with assms show ?thesis by (cases out) simp_all
qed

lemma run_bound:
  "run cfg tks st = Inr (Continue st') \<Longrightarrow>
   int (length (running_procs st)) \<le> NUMBER_OF_WORKERS cfg \<Longrightarrow>
   int (length (running_procs st')) \<le> NUMBER_OF_WORKERS cfg"
proof (induction tks arbitrary: st)
  case Nil
  then show ?case by simp
next
  case (Cons tk tks)
  from run_Continue_Cons [OF Cons.prems(1)] obtain st1
    where b: "loop_body cfg tk st = Inr (Continue st1)"
      and r: "run cfg tks st1 = Inr (Continue st')"
    by blast
  from Cons.IH [OF r loop_body_bound [OF b Cons.prems(2)]] show ?case .
qed

lemma after_admission_cases:
  assumes "after_admission cfg tks tk w = Inr (Some st)"
  shows "\<exists>st0. run cfg tks (initial w) = Inr (Continue st0) \<and>
           upto_admission cfg tk st0 = Inr (Some st)"
proof (cases "run cfg tks (initial w)")
  case (Inl e)
  with assms show ?thesis by (simp add: after_admission_def)
next
  case (Inr out)
  with assms show ?thesis by (cases out) (simp_all add: after_admission_def)
qed

subsection \<open>C6: the running set stays within the worker capacity\<close>

text \<open>
  Claim C6. Let the supervisor start with both sets empty in any world and make any
  number of passes through the loop body on any messages; at the observation point
  right after the admission step of the next pass, the number of wrappers in
  \<^verbatim>\<open>running_procs\<close> is at most \<^verbatim>\<open>config.NUMBER_OF_WORKERS\<close>. The capacity is a count: it is
  taken to be non-negative.
\<close>

theorem running_within_capacity:
  assumes "0 \<le> NUMBER_OF_WORKERS cfg"
    and "after_admission cfg tks tk w = Inr (Some st)"
  shows "int (length (running_procs st)) \<le> NUMBER_OF_WORKERS cfg"
proof -
  from after_admission_cases [OF assms(2)] obtain st0
    where r: "run cfg tks (initial w) = Inr (Continue st0)"
      and u: "upto_admission cfg tk st0 = Inr (Some st)"
    by blast
  have "int (length (running_procs (initial w))) \<le> NUMBER_OF_WORKERS cfg"
    using assms(1) by (simp add: initial_def)
  from upto_admission_bound [OF u run_bound [OF r this]] show ?thesis .
qed

text \<open>Three submissions with capacity 2: after the third admission step two wrappers run
  and one waits.\<close>

lemma example_three_submissions:
  "map_sum id (map_option occupancy)
     (after_admission example_config [example_submit, example_submit] example_submit
        example_busy_world) = Inr (Some (2, 1))"
  by code_simp

text \<open>Claim C6 at the example: capacity 2 and three submissions.\<close>

theorem running_within_capacity_witness:
  "0 \<le> NUMBER_OF_WORKERS example_config \<and>
   (\<exists>st. after_admission example_config [example_submit, example_submit] example_submit
           example_busy_world = Inr (Some st) \<and>
         int (length (running_procs st)) \<le> NUMBER_OF_WORKERS example_config)"
proof -
  have c: "0 \<le> NUMBER_OF_WORKERS example_config" by (simp add: example_config_def)
  obtain st where s: "after_admission example_config [example_submit, example_submit]
      example_submit example_busy_world = Inr (Some st)"
  proof (cases "after_admission example_config [example_submit, example_submit]
      example_submit example_busy_world")
    case (Inl e)
    with example_three_submissions show ?thesis by simp
  next
    case (Inr x)
    with example_three_submissions that show ?thesis by (cases x) simp_all
  qed
  from running_within_capacity [OF c s] c s show ?thesis by blast
qed

subsection \<open>C8: the reap step\<close>

text \<open>
  Claim C8. The reap step (lines 345-353) does not raise; it removes from
  \<^verbatim>\<open>running_procs\<close> exactly the wrappers with \<open>started = True\<close> and an exit code other than
  \<^verbatim>\<open>None\<close>, keeps the others in their order, and leaves the waiting set and the whole
  world, the status store included, as they were: no status update is written for a
  reaped wrapper, whatever its exit code. \<^verbatim>\<open>running_procs\<close> is a set: its members are
  distinct objects.
\<close>

theorem reap_removes_finished:
  assumes "distinct (map process (running_procs st))"
  shows "\<exists>st'. reap st = Inr st' \<and>
           running_procs st' =
             filter (\<lambda>p. \<not> (started p = True \<and> exitcode p (env st) \<noteq> None)) (running_procs st) \<and>
           waiting_processes st' = waiting_processes st \<and>
           env st' = env st"
  using reap_filter [OF assms] by (simp add: finished_def)

text \<open>Claim C8 at the example: the wrapper whose process exited with code 1 is removed,
  the other stays, and the stored documents are those of before.\<close>

theorem reap_removes_finished_witness:
  "distinct (map process (running_procs example_reap_state)) \<and>
   (\<exists>st'. reap example_reap_state = Inr st' \<and>
      running_procs st' = [example_process 1\<lparr>started := True\<rparr>] \<and>
      documents (env st') = documents example_world)"
proof -
  have d: "distinct (map process (running_procs example_reap_state))"
    by (simp add: example_reap_state_def example_process_def)
  have f: "filter (\<lambda>p. \<not> (started p = True \<and> exitcode p (env example_reap_state) \<noteq> None))
             (running_procs example_reap_state) = [example_process 1\<lparr>started := True\<rparr>]"
    by (simp add: example_reap_state_def example_process_def exitcode_def)
  have e: "documents (env example_reap_state) = documents example_world"
    by (simp add: example_reap_state_def)
  from reap_removes_finished [OF d] d f e show ?thesis by auto
qed

subsection \<open>C1: the admission step\<close>

lemma set_pop_nonempty:
  "s \<noteq> [] \<Longrightarrow>
   set_pop k s = Inr (s ! (k mod length s),
                      take (k mod length s) s @ drop (Suc (k mod length s)) s)"
  by (simp add: set_pop_def Let_def)

lemma set_add_fresh: "process x \<notin> process ` set s \<Longrightarrow> set_add x s = s @ [x]"
  by (simp add: set_add_def)

lemma start_fresh:
  "procs w (process p) = NotStarted \<Longrightarrow>
   start p w = Inr (p\<lparr>started := True\<rparr>,
                    w\<lparr>calls := calls w @ [Start (process p)],
                      procs := (procs w)(process p := Alive)\<rparr>)"
  by (simp add: start_def Let_def)

lemma admission_admits:
  assumes "wf_state st"
    and "int (length (running_procs st)) < NUMBER_OF_WORKERS cfg"
    and "waiting_processes st \<noteq> []"
  shows "admission cfg k st =
          Inr (st\<lparr>waiting_processes :=
                    take (k mod length (waiting_processes st)) (waiting_processes st) @
                    drop (Suc (k mod length (waiting_processes st))) (waiting_processes st),
                  running_procs :=
                    running_procs st @
                    [(waiting_processes st ! (k mod length (waiting_processes st)))\<lparr>started := True\<rparr>],
                  env := (env st)
                    \<lparr>calls := calls (env st) @
                       [Start (process (waiting_processes st ! (k mod length (waiting_processes st))))],
                     procs := (procs (env st))
                       (process (waiting_processes st ! (k mod length (waiting_processes st)))
                          := Alive)\<rparr>\<rparr>)"
proof -
  let ?ws = "waiting_processes st"
  let ?i = "k mod length ?ws"
  let ?p = "?ws ! ?i"
  from assms(3) have i: "?i < length ?ws" by simp
  then have mem: "?p \<in> set ?ws" by (rule nth_mem)
  with assms(1) have ns: "procs (env st) (process ?p) = NotStarted"
    by (simp add: wf_state_def)
  from assms(1) mem have fresh: "process ?p \<notin> process ` set (running_procs st)"
    by (auto simp: wf_state_def)
  from assms(3) have pop: "set_pop k ?ws = Inr (?p, take ?i ?ws @ drop (Suc ?i) ?ws)"
    by (simp add: set_pop_nonempty)
  have add: "set_add (?p\<lparr>started := True\<rparr>) (running_procs st) =
               running_procs st @ [?p\<lparr>started := True\<rparr>]"
    using fresh by (simp add: set_add_fresh)
  show ?thesis
    using assms(2,3) by (simp add: admission_def pop start_fresh [OF ns] add)
qed

text \<open>
  Claim C1, as amended. The admission step (lines 339-343) runs once in a pass of the
  loop. If \<^verbatim>\<open>running_procs\<close> holds fewer wrappers than \<^verbatim>\<open>NUMBER_OF_WORKERS\<close> and
  \<^verbatim>\<open>waiting_processes\<close> is not empty, it removes one wrapper from \<^verbatim>\<open>waiting_processes\<close>,
  inserts it into \<^verbatim>\<open>running_procs\<close> and calls \<^verbatim>\<open>start()\<close> on it: the wrapper is marked
  started, its process is alive, and the call is in the history. Otherwise it changes
  nothing. The state is one that satisfies the representation invariant of the two
  sets.
\<close>

theorem admission_once:
  assumes "wf_state st"
  shows "(\<not> (int (length (running_procs st)) < NUMBER_OF_WORKERS cfg \<and>
             waiting_processes st \<noteq> []) \<longrightarrow>
            admission cfg k st = Inr st) \<and>
         (int (length (running_procs st)) < NUMBER_OF_WORKERS cfg \<and> waiting_processes st \<noteq> [] \<longrightarrow>
            (\<exists>p i. i < length (waiting_processes st) \<and> p = waiting_processes st ! i \<and>
               admission cfg k st =
                 Inr (st\<lparr>waiting_processes :=
                           take i (waiting_processes st) @ drop (Suc i) (waiting_processes st),
                         running_procs := running_procs st @ [p\<lparr>started := True\<rparr>],
                         env := (env st)\<lparr>calls := calls (env st) @ [Start (process p)],
                                         procs := (procs (env st))(process p := Alive)\<rparr>\<rparr>)))"
proof (intro conjI impI)
  assume "\<not> (int (length (running_procs st)) < NUMBER_OF_WORKERS cfg \<and>
             waiting_processes st \<noteq> [])"
  then show "admission cfg k st = Inr st" by (rule admission_idle)
next
  assume c: "int (length (running_procs st)) < NUMBER_OF_WORKERS cfg \<and> waiting_processes st \<noteq> []"
  let ?ws = "waiting_processes st"
  let ?i = "k mod length ?ws"
  from c have i: "?i < length ?ws" by simp
  from c have "int (length (running_procs st)) < NUMBER_OF_WORKERS cfg" and "?ws \<noteq> []"
    by simp_all
  from admission_admits [OF assms this, of k] i
  show "\<exists>p i. i < length ?ws \<and> p = ?ws ! i \<and>
               admission cfg k st =
                 Inr (st\<lparr>waiting_processes := take i ?ws @ drop (Suc i) ?ws,
                         running_procs := running_procs st @ [p\<lparr>started := True\<rparr>],
                         env := (env st)\<lparr>calls := calls (env st) @ [Start (process p)],
                                         procs := (procs (env st))(process p := Alive)\<rparr>\<rparr>)"
    by blast
qed

text \<open>The example with two waiting wrappers satisfies the invariant.\<close>

lemma example_waiting_wf: "wf_state example_waiting_state"
  by (simp add: wf_state_def example_waiting_state_def example_process_def example_world_def)

text \<open>Claim C1 as amended, at the example: with capacity 2 one of the two waiting
  wrappers is admitted; with capacity 0 none is.\<close>

theorem admission_once_witness:
  "wf_state example_waiting_state \<and>
   map_sum id occupancy (admission example_config 0 example_waiting_state) = Inr (1, 1) \<and>
   map_sum id occupancy
     (admission (example_config\<lparr>NUMBER_OF_WORKERS := 0\<rparr>) 0 example_waiting_state) = Inr (0, 2)"
proof -
  have a: "int (length (running_procs example_waiting_state)) < NUMBER_OF_WORKERS example_config \<and>
           waiting_processes example_waiting_state \<noteq> []"
    and b: "\<not> (int (length (running_procs example_waiting_state))
             < NUMBER_OF_WORKERS (example_config\<lparr>NUMBER_OF_WORKERS := 0\<rparr>) \<and>
           waiting_processes example_waiting_state \<noteq> [])"
    and l: "length (waiting_processes example_waiting_state) = 2"
      "length (running_procs example_waiting_state) = 0"
    by (simp_all add: example_waiting_state_def example_config_def)
  from admission_once [OF example_waiting_wf, of example_config 0] a
  have "map_sum id occupancy (admission example_config 0 example_waiting_state) = Inr (1, 1)"
    by (auto simp: occupancy_def l)
  moreover from admission_once [OF example_waiting_wf,
      of "example_config\<lparr>NUMBER_OF_WORKERS := 0\<rparr>" 0] b
  have "map_sum id occupancy
     (admission (example_config\<lparr>NUMBER_OF_WORKERS := 0\<rparr>) 0 example_waiting_state) = Inr (0, 2)"
    by (simp add: occupancy_def l)
  ultimately show ?thesis using example_waiting_wf by simp
qed

text \<open>Claim C1 as stated asks that after the admission step either the running set has
  reached the capacity or the waiting set is empty. With capacity 2, submit four jobs:
  two run and two wait. Both running jobs exit during the fifth poll and are reaped in
  the fifth pass. Right after the admission step of the sixth pass one wrapper runs and
  one still waits.\<close>

theorem admission_leaves_room:
  "map_sum id (map_option occupancy)
     (after_admission example_config
        [example_submit, example_submit, example_submit, example_submit, example_idle]
        example_idle example_busy_world) = Inr (Some (1, 1)) \<and>
   1 < NUMBER_OF_WORKERS example_config"
proof
  show "map_sum id (map_option occupancy)
     (after_admission example_config
        [example_submit, example_submit, example_submit, example_submit, example_idle]
        example_idle example_busy_world) = Inr (Some (1, 1))"
    by code_simp
  show "1 < NUMBER_OF_WORKERS example_config" by (simp add: example_config_def)
qed

subsection \<open>C3: the shutdown sentinel\<close>

lemma terminate_each_total:
  "store_ok w \<Longrightarrow>
   \<exists>w'. terminate_each ps s m w = Inr w' \<and> store_ok w' \<and>
      calls w' = calls w @ map (\<lambda>p. Terminate (process p) s m) ps \<and>
      termination_requests w' = termination_requests w @ map (\<lambda>p. (user_id p, resource_id p)) ps \<and>
      nprocs w' = nprocs w \<and> queue_closed w' = queue_closed w \<and>
      (\<forall>h. procs w h = NotStarted \<longrightarrow> procs w' h = NotStarted)"
proof (induction ps arbitrary: w)
  case Nil
  then show ?case by simp
next
  case (Cons p ps)
  from terminate_total [OF Cons.prems, of p s m] obtain w1
    where t: "terminate p s m w = Inr w1" and ok: "store_ok w1"
      and c: "calls w1 = calls w @ [Terminate (process p) s m]"
      and r: "termination_requests w1 = termination_requests w @ [(user_id p, resource_id p)]"
      and n: "nprocs w1 = nprocs w" and q: "queue_closed w1 = queue_closed w"
      and pr: "\<forall>h. procs w h \<noteq> Alive \<longrightarrow> procs w1 h = procs w h"
    by blast
  from Cons.IH [OF ok] obtain w'
    where t': "terminate_each ps s m w1 = Inr w'" and ok': "store_ok w'"
      and c': "calls w' = calls w1 @ map (\<lambda>p. Terminate (process p) s m) ps"
      and r': "termination_requests w' =
                 termination_requests w1 @ map (\<lambda>p. (user_id p, resource_id p)) ps"
      and n': "nprocs w' = nprocs w1" and q': "queue_closed w' = queue_closed w1"
      and pr': "\<forall>h. procs w1 h = NotStarted \<longrightarrow> procs w' h = NotStarted"
    by blast
  have "\<forall>h. procs w h = NotStarted \<longrightarrow> procs w' h = NotStarted"
  proof (intro allI impI)
    fix h assume h: "procs w h = NotStarted"
    with pr have "procs w1 h = NotStarted" by simp
    with pr' show "procs w' h = NotStarted" by simp
  qed
  with t t' ok' c c' r r' n n' q q' show ?case by simp
qed

lemma is_stop_sentinel: "is_stop (PStr ''STOP'') = Inr True"
  by (simp add: is_stop_def)

lemma queue_get_not_started:
  "procs w h = NotStarted \<Longrightarrow> procs (queue_get w) h = NotStarted"
  using queue_get_not_alive [of w h] by simp

lemma terminations_of_append:
  "terminations_of h (a @ b) = terminations_of h a + terminations_of h b"
  by (simp add: terminations_of_def)

lemma terminations_of_map:
  "terminations_of h (map (\<lambda>q. Terminate (process q) s m) ps) =
     length (filter (\<lambda>q. process q = h) ps)"
  by (induction ps) (auto simp: terminations_of_def)

lemma count_absent:
  "h \<notin> process ` set ps \<Longrightarrow> length (filter (\<lambda>q. process q = h) ps) = 0"
  by (induction ps) auto

lemma count_distinct:
  "distinct (map process ps) \<Longrightarrow> p \<in> set ps \<Longrightarrow>
   length (filter (\<lambda>q. process q = process p) ps) = 1"
proof (induction ps)
  case Nil
  then show ?case by simp
next
  case (Cons x ps)
  show ?case
  proof (cases "process x = process p")
    case True
    with Cons.prems(1) have "process p \<notin> process ` set ps" by simp
    from count_absent [OF this] True show ?thesis by simp
  next
    case False
    with Cons.prems have "p \<in> set ps" and "distinct (map process ps)" by auto
    with Cons.IH False show ?thesis by simp
  qed
qed

lemma terminated_once:
  assumes "distinct (map process (rs @ ws))" and "p \<in> set (rs @ ws)"
  shows "terminations_of (process p)
           (cs @ map (\<lambda>q. Terminate (process q) s m) rs @
                  map (\<lambda>q. Terminate (process q) s m') ws) =
         terminations_of (process p) cs + 1"
proof -
  have "length (filter (\<lambda>q. process q = process p) (rs @ ws)) = 1"
    by (rule count_distinct [OF assms])
  then show ?thesis
    by (simp add: terminations_of_append terminations_of_map)
qed

text \<open>
  Claim C3. When the loop dequeues the sentinel \<^verbatim>\<open>"STOP"\<close> in a world whose status store
  is well-formed, the pass returns (the outcome is \<open>Stopped\<close>), whatever messages would
  follow: no further pass is made. The history of calls is extended by exactly one
  \<^verbatim>\<open>terminate\<close> with status "error" for every member of \<^verbatim>\<open>running_procs\<close>, with the message
  "Running process was terminated by server shutdown.", followed by exactly one for every
  member of \<^verbatim>\<open>waiting_processes\<close>, with the message "Waiting process was terminated by
  server shutdown.", and by nothing else: no \<^verbatim>\<open>start\<close>. The members of the two sets being
  distinct objects, \<^verbatim>\<open>terminate\<close> has been called on each of them once more than before. The queue is closed; the waiting
  wrappers keep \<open>started = False\<close> and a process that was not started is still not started.
\<close>

theorem shutdown_on_sentinel:
  assumes "store_ok (env st)"
  shows "\<exists>st'. loop_body cfg \<lparr>data = PStr ''STOP'', pick = k\<rparr> st = Inr (Stopped st') \<and>
           (\<forall>tks. run cfg (\<lparr>data = PStr ''STOP'', pick = k\<rparr> # tks) st = Inr (Stopped st')) \<and>
           calls (env st') =
             calls (env st) @
             map (\<lambda>p. Terminate (process p) ''error''
                        ''Running process was terminated by server shutdown.'')
               (running_procs st) @
             map (\<lambda>p. Terminate (process p) ''error''
                        ''Waiting process was terminated by server shutdown.'')
               (waiting_processes st) \<and>
           queue_closed (env st') = True \<and>
           running_procs st' = running_procs st \<and>
           waiting_processes st' = waiting_processes st \<and>
           (\<forall>h. procs (env st) h = NotStarted \<longrightarrow> procs (env st') h = NotStarted) \<and>
           (distinct (map process (running_procs st @ waiting_processes st)) \<longrightarrow>
              (\<forall>p \<in> set (running_procs st @ waiting_processes st).
                 terminations_of (process p) (calls (env st')) =
                 terminations_of (process p) (calls (env st)) + 1))"
proof -
  let ?tk = "\<lparr>data = PStr ''STOP'', pick = k\<rparr>"
  let ?w0 = "queue_get (env st)"
  let ?mr = "''Running process was terminated by server shutdown.''"
  let ?mw = "''Waiting process was terminated by server shutdown.''"
  have ok0: "store_ok ?w0" by (rule store_ok_queue_get [OF assms])
  from terminate_each_total [OF ok0, of "running_procs st" "''error''" ?mr] obtain w1
    where t1: "terminate_each (running_procs st) ''error'' ?mr ?w0 = Inr w1"
      and ok1: "store_ok w1"
      and c1: "calls w1 = calls ?w0 @ map (\<lambda>p. Terminate (process p) ''error'' ?mr) (running_procs st)"
      and p1: "\<forall>h. procs ?w0 h = NotStarted \<longrightarrow> procs w1 h = NotStarted"
    by blast
  from terminate_each_total [OF ok1, of "waiting_processes st" "''error''" ?mw] obtain w2
    where t2: "terminate_each (waiting_processes st) ''error'' ?mw w1 = Inr w2"
      and c2: "calls w2 = calls w1 @ map (\<lambda>p. Terminate (process p) ''error'' ?mw) (waiting_processes st)"
      and p2: "\<forall>h. procs w1 h = NotStarted \<longrightarrow> procs w2 h = NotStarted"
    by blast
  let ?st' = "st\<lparr>env := queue_close (queue_close w2)\<rparr>"
  have sh: "shutdown (st\<lparr>env := ?w0\<rparr>) = Inr (st\<lparr>env := queue_close w2\<rparr>)"
    by (simp add: shutdown_def t1 t2)
  have body: "loop_body cfg ?tk st = Inr (Stopped ?st')"
    by (simp add: loop_body_def Let_def is_stop_sentinel sh)
  have pr: "\<forall>h. procs (env st) h = NotStarted \<longrightarrow> procs (env ?st') h = NotStarted"
  proof (intro allI impI)
    fix h assume "procs (env st) h = NotStarted"
    then have "procs ?w0 h = NotStarted" by (rule queue_get_not_started)
    with p1 have "procs w1 h = NotStarted" by simp
    with p2 have "procs w2 h = NotStarted" by simp
    then show "procs (env ?st') h = NotStarted" by (simp add: queue_close_def)
  qed
  have cs: "calls (env ?st') =
      calls (env st) @ map (\<lambda>p. Terminate (process p) ''error'' ?mr) (running_procs st) @
      map (\<lambda>p. Terminate (process p) ''error'' ?mw) (waiting_processes st)"
    by (simp add: c1 c2 queue_close_def)
  have once: "distinct (map process (running_procs st @ waiting_processes st)) \<longrightarrow>
      (\<forall>p \<in> set (running_procs st @ waiting_processes st).
         terminations_of (process p) (calls (env ?st')) =
         terminations_of (process p) (calls (env st)) + 1)"
    unfolding cs by (intro impI ballI terminated_once)
  show ?thesis
    apply (rule exI [of _ ?st'])
    using body pr cs once
    by (simp add: queue_close_def)
qed

text \<open>Claim C3 at the example with one running and one waiting wrapper; a submission
  queued behind the sentinel is not served.\<close>

theorem shutdown_on_sentinel_witness:
  "store_ok (env example_shutdown_state) \<and>
   (\<exists>st'. loop_body example_config \<lparr>data = PStr ''STOP'', pick = 0\<rparr> example_shutdown_state =
            Inr (Stopped st') \<and>
      run example_config [\<lparr>data = PStr ''STOP'', pick = 0\<rparr>, example_submit]
        example_shutdown_state = Inr (Stopped st') \<and>
      calls (env st') =
        [Terminate 0 ''error'' ''Running process was terminated by server shutdown.'',
         Terminate 1 ''error'' ''Waiting process was terminated by server shutdown.''] \<and>
      terminations_of 0 (calls (env st')) = 1 \<and>
      terminations_of 1 (calls (env st')) = 1 \<and>
      queue_closed (env st') = True \<and>
      map started (waiting_processes st') = [False] \<and>
      procs (env st') 1 = NotStarted)"
proof -
  have ok: "store_ok (env example_shutdown_state)"
    using example_store_ok by (simp add: example_shutdown_state_def)
  have e: "calls (env example_shutdown_state) = []"
    "map process (running_procs example_shutdown_state) = [0]"
    "map process (waiting_processes example_shutdown_state) = [1]"
    "map started (waiting_processes example_shutdown_state) = [False]"
    "procs (env example_shutdown_state) 1 = NotStarted"
    by (simp_all add: example_shutdown_state_def example_world_def example_process_def)
  from shutdown_on_sentinel [OF ok, of example_config 0] obtain st'
    where a: "loop_body example_config \<lparr>data = PStr ''STOP'', pick = 0\<rparr> example_shutdown_state =
            Inr (Stopped st')"
      and b: "\<forall>tks. run example_config (\<lparr>data = PStr ''STOP'', pick = 0\<rparr> # tks)
            example_shutdown_state = Inr (Stopped st')"
      and c: "calls (env st') =
             calls (env example_shutdown_state) @
             map (\<lambda>p. Terminate (process p) ''error''
                        ''Running process was terminated by server shutdown.'')
               (running_procs example_shutdown_state) @
             map (\<lambda>p. Terminate (process p) ''error''
                        ''Waiting process was terminated by server shutdown.'')
               (waiting_processes example_shutdown_state)"
      and d: "queue_closed (env st') = True"
        "waiting_processes st' = waiting_processes example_shutdown_state"
      and f: "\<forall>h. procs (env example_shutdown_state) h = NotStarted \<longrightarrow>
                procs (env st') h = NotStarted"
    by blast
  have c': "calls (env st') =
        [Terminate 0 ''error'' ''Running process was terminated by server shutdown.'',
         Terminate 1 ''error'' ''Waiting process was terminated by server shutdown.'']"
    using c by (simp add: example_shutdown_state_def example_world_def example_process_def)
  from c' have t: "terminations_of 0 (calls (env st')) = 1"
    "terminations_of 1 (calls (env st')) = 1"
    by (simp_all add: terminations_of_def)
  from f e have "procs (env st') 1 = NotStarted" by simp
  with ok a b c' d e t show ?thesis by simp
qed

subsection \<open>C7: submissions and the sentinel\<close>

lemma loop_body_not_stop:
  assumes "is_stop (data tk) = Inr False"
  shows "loop_body cfg tk st =
           then_do (submission (data tk) (st\<lparr>env := queue_get (env st)\<rparr>)) (\<lambda>st1.
           then_do (admission cfg (pick tk) st1) (\<lambda>st2.
           then_do (reap st2) (\<lambda>st3.
           then_do (evict st3) (\<lambda>st4. Inr (Continue st4)))))"
  by (simp add: loop_body_def Let_def assms)

lemma loop_body_continues:
  assumes "is_stop (data tk) = Inr False" and "loop_body cfg tk st = Inr out"
  shows "\<not> is_stopped out"
proof -
  from assms have "then_do (submission (data tk) (st\<lparr>env := queue_get (env st)\<rparr>)) (\<lambda>st1.
           then_do (admission cfg (pick tk) st1) (\<lambda>st2.
           then_do (reap st2) (\<lambda>st3.
           then_do (evict st3) (\<lambda>st4. Inr (Continue st4))))) = Inr out"
    by (simp add: loop_body_not_stop)
  from then_do_InrD [OF this] obtain st1
    where "then_do (admission cfg (pick tk) st1) (\<lambda>st2.
           then_do (reap st2) (\<lambda>st3.
           then_do (evict st3) (\<lambda>st4. Inr (Continue st4)))) = Inr out"
    by blast
  from then_do_InrD [OF this] obtain st2
    where "then_do (reap st2) (\<lambda>st3.
           then_do (evict st3) (\<lambda>st4. Inr (Continue st4))) = Inr out"
    by blast
  from then_do_InrD [OF this] obtain st3
    where "then_do (evict st3) (\<lambda>st4. Inr (Continue st4)) = Inr out"
    by blast
  from then_do_InrD [OF this] obtain st4 where "out = Continue st4" by auto
  then show ?thesis by simp
qed

text \<open>
  Claim C7. A job submission is the message that \<^verbatim>\<open>enqueue_job(timeout, func, *args)\<close> puts
  on the queue for an entry point that is a function and a timeout that is a number: the
  3-tuple \<^verbatim>\<open>(func, timeout, args)\<close>. Whatever the function, the number and the arguments are
  (the string \<^verbatim>\<open>"STOP"\<close> among the arguments included), the test of line 322 is false and
  the test of line 330 is true: the pass never returns as it does for the sentinel, and
  the message is unpacked and handed to the constructor of the wrapper, whose result is
  added to \<^verbatim>\<open>waiting_processes\<close>. When the first argument is a job context, the constructor
  returns a wrapper with the message's entry point and timeout, the context's
  identifiers, the clock's reading as enqueue time and \<open>started = False\<close>, and in a state
  that satisfies the invariant of the two sets this wrapper joins \<^verbatim>\<open>waiting_processes\<close>.
\<close>

theorem submission_is_not_sentinel:
  "is_stop (enqueue_job (PNum t) (PFunc f) args) = Inr False \<and>
   is_submission (enqueue_job (PNum t) (PFunc f) args) = Inr True \<and>
   (\<forall>out. loop_body cfg \<lparr>data = enqueue_job (PNum t) (PFunc f) args, pick = k\<rparr> st = Inr out \<longrightarrow>
          \<not> is_stopped out) \<and>
   submission (enqueue_job (PNum t) (PFunc f) args) st =
     then_do (EnqueuedProcess (PFunc f) (PNum t) (PTuple args) (env st)) (\<lambda>(enqproc, w).
       Inr (st\<lparr>waiting_processes := set_add enqproc (waiting_processes st), env := w\<rparr>)) \<and>
   (\<forall>c rest. args = PCtx c # rest \<longrightarrow>
      EnqueuedProcess (PFunc f) (PNum t) (PTuple args) (env st) =
        Inr (\<lparr>process = nprocs (env st), target = PFunc f, pargs = PCtx c # rest,
              timeout = PNum t, config = ctx_config c, resource_id = ctx_resource_id c,
              user_id = ctx_user_id c, init_time = now (env st), started = False\<rparr>,
             (env st)\<lparr>procs := (procs (env st))(nprocs (env st) := NotStarted),
                      nprocs := Suc (nprocs (env st))\<rparr>)) \<and>
   (\<forall>c rest. args = PCtx c # rest \<longrightarrow> wf_state st \<longrightarrow>
      submission (enqueue_job (PNum t) (PFunc f) args) st =
        Inr (st\<lparr>waiting_processes :=
                  waiting_processes st @
                  [\<lparr>process = nprocs (env st), target = PFunc f, pargs = PCtx c # rest,
                    timeout = PNum t, config = ctx_config c, resource_id = ctx_resource_id c,
                    user_id = ctx_user_id c, init_time = now (env st), started = False\<rparr>],
                env := (env st)\<lparr>procs := (procs (env st))(nprocs (env st) := NotStarted),
                                nprocs := Suc (nprocs (env st))\<rparr>\<rparr>))"
proof -
  let ?d = "enqueue_job (PNum t) (PFunc f) args"
  have s: "is_stop ?d = Inr False"
    by (simp add: enqueue_job_def is_stop_def)
  have b: "is_submission ?d = Inr True"
    by (simp add: enqueue_job_def is_submission_def)
  have u: "unpack3 ?d = Inr (PFunc f, PNum t, PTuple args)"
    by (simp add: enqueue_job_def unpack3_def)
  have sub: "submission ?d st =
     then_do (EnqueuedProcess (PFunc f) (PNum t) (PTuple args) (env st)) (\<lambda>(enqproc, w).
       Inr (st\<lparr>waiting_processes := set_add enqproc (waiting_processes st), env := w\<rparr>))"
    by (simp add: submission_def b u)
  have cont: "\<forall>out. loop_body cfg \<lparr>data = ?d, pick = k\<rparr> st = Inr out \<longrightarrow> \<not> is_stopped out"
  proof (intro allI impI)
    fix out assume "loop_body cfg \<lparr>data = ?d, pick = k\<rparr> st = Inr out"
    with s show "\<not> is_stopped out"
      by (intro loop_body_continues [of "\<lparr>data = ?d, pick = k\<rparr>"]) simp_all
  qed
  have con: "\<forall>c rest. args = PCtx c # rest \<longrightarrow>
      EnqueuedProcess (PFunc f) (PNum t) (PTuple args) (env st) =
        Inr (\<lparr>process = nprocs (env st), target = PFunc f, pargs = PCtx c # rest,
              timeout = PNum t, config = ctx_config c, resource_id = ctx_resource_id c,
              user_id = ctx_user_id c, init_time = now (env st), started = False\<rparr>,
             (env st)\<lparr>procs := (procs (env st))(nprocs (env st) := NotStarted),
                      nprocs := Suc (nprocs (env st))\<rparr>)"
    by (simp add: EnqueuedProcess_def)
  have ins: "\<forall>c rest. args = PCtx c # rest \<longrightarrow> wf_state st \<longrightarrow>
      submission ?d st =
        Inr (st\<lparr>waiting_processes :=
                  waiting_processes st @
                  [\<lparr>process = nprocs (env st), target = PFunc f, pargs = PCtx c # rest,
                    timeout = PNum t, config = ctx_config c, resource_id = ctx_resource_id c,
                    user_id = ctx_user_id c, init_time = now (env st), started = False\<rparr>],
                env := (env st)\<lparr>procs := (procs (env st))(nprocs (env st) := NotStarted),
                                nprocs := Suc (nprocs (env st))\<rparr>\<rparr>)"
  proof (intro allI impI)
    fix c rest
    assume a: "args = PCtx c # rest" and wf: "wf_state st"
    let ?p = "\<lparr>process = nprocs (env st), target = PFunc f, pargs = PCtx c # rest,
              timeout = PNum t, config = ctx_config c, resource_id = ctx_resource_id c,
              user_id = ctx_user_id c, init_time = now (env st), started = False\<rparr>"
    have "process ?p \<notin> process ` set (waiting_processes st)"
    proof
      assume "process ?p \<in> process ` set (waiting_processes st)"
      then obtain q where q: "q \<in> set (waiting_processes st)" and "process q = nprocs (env st)"
        by auto
      moreover from wf q have "process q < nprocs (env st)" by (simp add: wf_state_def)
      ultimately show False by simp
    qed
    then have "set_add ?p (waiting_processes st) = waiting_processes st @ [?p]"
      by (rule set_add_fresh)
    moreover from con a
    have "EnqueuedProcess (PFunc f) (PNum t) (PTuple args) (env st) =
        Inr (?p, (env st)\<lparr>procs := (procs (env st))(nprocs (env st) := NotStarted),
                          nprocs := Suc (nprocs (env st))\<rparr>)"
      by blast
    ultimately show "submission ?d st =
        Inr (st\<lparr>waiting_processes := waiting_processes st @ [?p],
                env := (env st)\<lparr>procs := (procs (env st))(nprocs (env st) := NotStarted),
                                nprocs := Suc (nprocs (env st))\<rparr>\<rparr>)"
      unfolding sub by simp
  qed
  from s b cont sub con ins show ?thesis by blast
qed

text \<open>A pass on a submission that has the string \<^verbatim>\<open>"STOP"\<close> among its arguments, from the
  empty start, continues.\<close>

lemma example_stop_argument_pass:
  "map_sum id is_stopped
     (loop_body example_config
        \<lparr>data = enqueue_job (PNum 10) (PFunc 0)
                 [PCtx \<lparr>ctx_config = example_config, ctx_resource_id = ''r'',
                        ctx_user_id = ''u''\<rparr>, PStr ''STOP''],
         pick = 0\<rparr>
        (initial example_world)) = Inr False"
  by code_simp

text \<open>Claim C7 at a submission with the string \<^verbatim>\<open>"STOP"\<close> as its second argument: it is
  not taken for the sentinel and joins the waiting set.\<close>

theorem submission_is_not_sentinel_witness:
  "wf_state (initial example_world) \<and>
   is_stop (enqueue_job (PNum 10) (PFunc 0)
              [PCtx \<lparr>ctx_config = example_config, ctx_resource_id = ''r'', ctx_user_id = ''u''\<rparr>,
               PStr ''STOP'']) = Inr False \<and>
   map_sum id is_stopped
     (loop_body example_config
        \<lparr>data = enqueue_job (PNum 10) (PFunc 0)
                 [PCtx \<lparr>ctx_config = example_config, ctx_resource_id = ''r'',
                        ctx_user_id = ''u''\<rparr>, PStr ''STOP''],
         pick = 0\<rparr>
        (initial example_world)) = Inr False \<and>
   map_sum id occupancy
     (submission
        (enqueue_job (PNum 10) (PFunc 0)
           [PCtx \<lparr>ctx_config = example_config, ctx_resource_id = ''r'', ctx_user_id = ''u''\<rparr>,
            PStr ''STOP''])
        (initial example_world)) = Inr (0, 1)"
proof -
  let ?c = "\<lparr>ctx_config = example_config, ctx_resource_id = ''r'', ctx_user_id = ''u''\<rparr>"
  have wf: "wf_state (initial example_world)" by (simp add: wf_state_def initial_def)
  note T = submission_is_not_sentinel
    [of 10 0 "[PCtx ?c, PStr ''STOP'']" example_config 0 "initial example_world"]
  have s: "is_stop (enqueue_job (PNum 10) (PFunc 0) [PCtx ?c, PStr ''STOP'']) = Inr False"
    by (rule T [THEN conjunct1])
  have "submission (enqueue_job (PNum 10) (PFunc 0) [PCtx ?c, PStr ''STOP''])
          (initial example_world) =
        Inr ((initial example_world)\<lparr>waiting_processes :=
               waiting_processes (initial example_world) @
               [\<lparr>process = nprocs (env (initial example_world)), target = PFunc 0,
                 pargs = [PCtx ?c, PStr ''STOP''], timeout = PNum 10, config = ctx_config ?c,
                 resource_id = ctx_resource_id ?c, user_id = ctx_user_id ?c,
                 init_time = now (env (initial example_world)), started = False\<rparr>],
             env := (env (initial example_world))
               \<lparr>procs := (procs (env (initial example_world)))
                  (nprocs (env (initial example_world)) := NotStarted),
                nprocs := Suc (nprocs (env (initial example_world)))\<rparr>\<rparr>)"
    by (rule T [THEN conjunct2, THEN conjunct2, THEN conjunct2, THEN conjunct2, THEN conjunct2,
          rule_format, OF refl wf])
  then have "map_sum id occupancy
     (submission (enqueue_job (PNum 10) (PFunc 0) [PCtx ?c, PStr ''STOP''])
        (initial example_world)) = Inr (0, 1)"
    by (simp add: occupancy_def initial_def)
  note this s
  with wf example_stop_argument_pass show ?thesis by simp
qed

subsection \<open>C10: messages that are neither\<close>

text \<open>
  Claim C10, as amended. For every dequeued message on which both tests can be
  evaluated (a string, tuple, list or dict), in which \<^verbatim>\<open>"STOP"\<close> does not occur and whose
  length is not 3: neither test raises, the dispatch leaves both sets and the world as
  they are and creates no wrapper, and the pass continues with admission, reap and
  eviction exactly as the pass of an empty poll does.
\<close>

theorem other_message_discarded:
  assumes "d \<noteq> PNone" and "py_contains ''STOP'' d = Inr False"
    and "py_len d = Inr n" and "n \<noteq> 3"
  shows "is_stop d = Inr False \<and> is_submission d = Inr False \<and>
         submission d st = Inr st \<and>
         upto_admission cfg \<lparr>data = d, pick = k\<rparr> st =
           upto_admission cfg \<lparr>data = PNone, pick = k\<rparr> st \<and>
         loop_body cfg \<lparr>data = d, pick = k\<rparr> st = loop_body cfg \<lparr>data = PNone, pick = k\<rparr> st"
proof -
  from assms have s: "is_stop d = Inr False" by (simp add: is_stop_def)
  from assms have b: "is_submission d = Inr False" by (simp add: is_submission_def)
  have sn: "is_stop PNone = Inr False" by (simp add: is_stop_def)
  have bn: "is_submission PNone = Inr False" by (simp add: is_submission_def)
  have sub: "\<And>st. submission d st = Inr st" by (simp add: submission_def b)
  have subn: "\<And>st. submission PNone st = Inr st" by (simp add: submission_def bn)
  have u: "upto_admission cfg \<lparr>data = d, pick = k\<rparr> st =
           upto_admission cfg \<lparr>data = PNone, pick = k\<rparr> st"
    by (simp add: upto_admission_def Let_def s sn sub subn)
  have l: "loop_body cfg \<lparr>data = d, pick = k\<rparr> st = loop_body cfg \<lparr>data = PNone, pick = k\<rparr> st"
    by (simp add: loop_body_def Let_def s sn sub subn)
  from s b sub u l show ?thesis by simp
qed

text \<open>A pass with no message, from the empty start, continues.\<close>

lemma example_idle_pass:
  "map_sum id is_stopped (loop_body example_config \<lparr>data = PNone, pick = 0\<rparr>
     (initial example_world)) = Inr False"
  by code_simp

text \<open>Claim C10 as amended, at the 2-tuple \<^verbatim>\<open>(1, 2)\<close>.\<close>

theorem other_message_discarded_witness:
  "PTuple [PNum 1, PNum 2] \<noteq> PNone \<and>
   py_contains ''STOP'' (PTuple [PNum 1, PNum 2]) = Inr False \<and>
   py_len (PTuple [PNum 1, PNum 2]) = Inr 2 \<and> (2::nat) \<noteq> 3 \<and>
   submission (PTuple [PNum 1, PNum 2]) (initial example_world) = Inr (initial example_world) \<and>
   map_sum id is_stopped
     (loop_body example_config \<lparr>data = PTuple [PNum 1, PNum 2], pick = 0\<rparr>
        (initial example_world)) = Inr False"
proof -
  have a: "PTuple [PNum 1, PNum 2] \<noteq> PNone"
    "py_contains ''STOP'' (PTuple [PNum 1, PNum 2]) = Inr False"
    "py_len (PTuple [PNum 1, PNum 2]) = Inr 2" "(2::nat) \<noteq> 3"
    by simp_all
  from other_message_discarded [OF a, of "initial example_world" example_config 0]
    example_idle_pass a
  show ?thesis by simp
qed

text \<open>Claim C10 as stated covers every message that is neither the sentinel nor a
  3-element submission. The number 5 is such a message: \<^verbatim>\<open>"STOP" in 5\<close> raises
  \<^verbatim>\<open>TypeError\<close>, which leaves the loop.\<close>

theorem number_message_raises:
  "loop_body example_config \<lparr>data = PNum 5, pick = 0\<rparr> (initial example_world) = Inl TypeError"
  by (simp add: loop_body_def Let_def is_stop_def)

text \<open>A string that contains \<^verbatim>\<open>"STOP"\<close> is taken for the sentinel.\<close>

lemma substring_message_is_shutdown:
  "map_sum id is_stopped
     (loop_body example_config \<lparr>data = PStr ''NONSTOP'', pick = 0\<rparr> (initial example_world)) =
   Inr True"
  by code_simp

subsection \<open>The invariant of the two sets\<close>

text \<open>The invariant \<open>wf_state\<close> holds when the supervisor starts and after every pass of
  the loop body that continues; so does the well-formedness of the status store, when
  the jobs write well-formed documents. These are the states and worlds that the
  properties above are stated for.\<close>

lemma wf_initial: "wf_state (initial w)"
  by (simp add: wf_state_def initial_def)

lemma wf_queue_get:
  assumes "wf_state st"
  shows "wf_state (st\<lparr>env := queue_get (env st)\<rparr>)"
  using assms by (simp add: wf_state_def queue_get_not_started)

lemma EnqueuedProcess_cases:
  assumes "EnqueuedProcess func tmo args w = Inr (p, w')"
  shows "process p = nprocs w \<and> started p = False \<and>
         w' = w\<lparr>procs := (procs w)(nprocs w := NotStarted), nprocs := Suc (nprocs w)\<rparr>"
proof -
  from then_do_InrD [OF assms [unfolded EnqueuedProcess_def]] obtain targs
    where r1: "then_do (py_index0 args) (\<lambda>a0.
     then_do (ctx_of a0) (\<lambda>c.
       Inr (\<lparr>process = nprocs w, target = func, pargs = targs, timeout = tmo,
             config = ctx_config c, resource_id = ctx_resource_id c,
             user_id = ctx_user_id c, init_time = now w, started = False\<rparr>,
            w\<lparr>procs := (procs w)(nprocs w := NotStarted), nprocs := Suc (nprocs w)\<rparr>))) =
       Inr (p, w')"
    by blast
  from then_do_InrD [OF r1] obtain a0
    where r2: "then_do (ctx_of a0) (\<lambda>c.
       Inr (\<lparr>process = nprocs w, target = func, pargs = targs, timeout = tmo,
             config = ctx_config c, resource_id = ctx_resource_id c,
             user_id = ctx_user_id c, init_time = now w, started = False\<rparr>,
            w\<lparr>procs := (procs w)(nprocs w := NotStarted), nprocs := Suc (nprocs w)\<rparr>)) =
       Inr (p, w')"
    by blast
  from then_do_InrD [OF r2] obtain c
    where "ctx_of a0 = Inr c" and "(Inr (\<lparr>process = nprocs w, target = func, pargs = targs, timeout = tmo,
             config = ctx_config c, resource_id = ctx_resource_id c,
             user_id = ctx_user_id c, init_time = now w, started = False\<rparr>,
            w\<lparr>procs := (procs w)(nprocs w := NotStarted), nprocs := Suc (nprocs w)\<rparr>)
           :: error + enqueued_process \<times> world) = Inr (p, w')"
    by blast
  then show ?thesis by auto
qed

lemma wf_submission:
  assumes "wf_state st" and "submission d st = Inr st'"
  shows "wf_state st'"
proof -
  from submission_cases [OF assms(2)]
  show ?thesis
  proof
    assume "st' = st"
    with assms(1) show ?thesis by simp
  next
    assume "\<exists>func tmo args p w. unpack3 d = Inr (func, tmo, args) \<and>
            EnqueuedProcess func tmo args (env st) = Inr (p, w) \<and>
            st' = st\<lparr>waiting_processes := set_add p (waiting_processes st), env := w\<rparr>"
    then obtain func tmo args p w
      where e: "EnqueuedProcess func tmo args (env st) = Inr (p, w)"
        and st': "st' = st\<lparr>waiting_processes := set_add p (waiting_processes st), env := w\<rparr>"
      by blast
    from EnqueuedProcess_cases [OF e]
    have h: "process p = nprocs (env st)" and s: "started p = False"
      and w: "w = (env st)\<lparr>procs := (procs (env st))(nprocs (env st) := NotStarted),
                           nprocs := Suc (nprocs (env st))\<rparr>"
      by simp_all
    from assms(1) have lt: "\<forall>q \<in> set (running_procs st @ waiting_processes st).
        process q < nprocs (env st)"
      by (auto simp: wf_state_def)
    then have fresh: "process p \<notin> process ` set (running_procs st @ waiting_processes st)"
      using h by auto
    then have add: "set_add p (waiting_processes st) = waiting_processes st @ [p]"
      by (intro set_add_fresh) auto
    have lt': "\<forall>q \<in> set (running_procs st @ waiting_processes st).
        process q < Suc (nprocs (env st)) \<and> process q \<noteq> nprocs (env st)"
    proof
      fix q assume "q \<in> set (running_procs st @ waiting_processes st)"
      with lt have "process q < nprocs (env st)" by blast
      then show "process q < Suc (nprocs (env st)) \<and> process q \<noteq> nprocs (env st)" by simp
    qed
    from assms(1) fresh lt' show ?thesis
      unfolding st' add w wf_state_def
      by (auto simp: h s)
  qed
qed

lemma wf_admits:
  assumes "wf_state st" and "i < length (waiting_processes st)"
  shows "wf_state
          (st\<lparr>waiting_processes :=
                take i (waiting_processes st) @ drop (Suc i) (waiting_processes st),
              running_procs := running_procs st @ [(waiting_processes st ! i)\<lparr>started := True\<rparr>],
              env := (env st)
                \<lparr>calls := c,
                 procs := (procs (env st))(process (waiting_processes st ! i) := Alive)\<rparr>\<rparr>)"
proof -
  let ?ws = "waiting_processes st"
  let ?p = "?ws ! i"
  let ?rest = "take i ?ws @ drop (Suc i) ?ws"
  have ws: "?ws = take i ?ws @ ?p # drop (Suc i) ?ws"
    using assms(2) by (rule id_take_nth_drop)
  from assms(1) have d: "distinct (map process (running_procs st @ ?ws))"
    and r: "\<forall>q \<in> set (running_procs st). started q = True \<and> process q < nprocs (env st)"
    and w: "\<forall>q \<in> set ?ws. started q = False \<and> process q < nprocs (env st) \<and>
              procs (env st) (process q) = NotStarted"
    by (simp_all add: wf_state_def)
  have d': "distinct (map process (running_procs st @ take i ?ws @ ?p # drop (Suc i) ?ws))"
    using d ws by simp
  then have d2: "distinct (map process ((running_procs st @ [?p\<lparr>started := True\<rparr>]) @ ?rest))"
    by auto
  from d' have np: "\<forall>q \<in> set ?rest. process q \<noteq> process ?p"
    by (auto simp: image_iff)
  have sub: "set ?rest \<subseteq> set ?ws"
    by (metis set_append Un_least set_take_subset set_drop_subset)
  have pm: "?p \<in> set ?ws" using assms(2) by (rule nth_mem)
  have r': "\<forall>q \<in> set (running_procs st @ [?p\<lparr>started := True\<rparr>]).
              started q = True \<and> process q < nprocs (env st)"
    using r w pm by auto
  have w': "\<forall>q \<in> set ?rest. started q = False \<and> process q < nprocs (env st) \<and>
              ((procs (env st))(process ?p := Alive)) (process q) = NotStarted"
    using w np sub by auto
  from d2 r' w' show ?thesis
    unfolding wf_state_def by simp
qed

lemma wf_admission:
  assumes "wf_state st" and "admission cfg k st = Inr st'"
  shows "wf_state st'"
proof (cases "int (length (running_procs st)) < NUMBER_OF_WORKERS cfg \<and>
              waiting_processes st \<noteq> []")
  case False
  from admission_idle [OF this, of k] assms show ?thesis by simp
next
  case True
  then have i: "k mod length (waiting_processes st) < length (waiting_processes st)" by simp
  from True admission_admits [OF assms(1), of cfg k] assms(2) wf_admits [OF assms(1) i]
  show ?thesis by simp
qed

lemma wf_reap:
  assumes "wf_state st" and "reap st = Inr st'"
  shows "wf_state st'"
proof -
  from assms(1) have "distinct (map process (running_procs st))"
    by (simp add: wf_state_def)
  from reap_filter [OF this] assms(2)
  have st': "st' = st\<lparr>running_procs := filter (\<lambda>p. \<not> finished (env st) p) (running_procs st)\<rparr>"
    by simp
  from assms(1) show ?thesis
    unfolding st' wf_state_def
    by (auto simp: distinct_map_filter)
qed

lemma check_timeout_cases:
  assumes "check_timeout p w = Inr (b, w')"
  shows "(b = False \<and> w' = w) \<or> (\<exists>m. b = True \<and> terminate p ''timeout'' m w = Inr w')"
proof (cases "started p = False")
  case False
  with assms show ?thesis by (simp add: check_timeout_def)
next
  case True
  with assms have "then_do (py_lt (timeout p) (now w - init_time p)) (\<lambda>late.
              if late then
                then_do (fmt_i (timeout p)) (\<lambda>t.
                then_do (terminate p ''timeout'' (timeout_message t) w) (\<lambda>w'.
                  Inr (True, w')))
              else Inr (False, w)) = Inr (b, w')"
    by (simp add: check_timeout_def Let_def)
  from then_do_InrD [OF this] obtain late
    where r: "(if late then
                then_do (fmt_i (timeout p)) (\<lambda>t.
                then_do (terminate p ''timeout'' (timeout_message t) w) (\<lambda>w'.
                  Inr (True, w')))
              else Inr (False, w)) = Inr (b, w')"
    by blast
  show ?thesis
  proof (cases late)
    case False
    with r show ?thesis by simp
  next
    case True
    with r have "then_do (fmt_i (timeout p)) (\<lambda>t.
                then_do (terminate p ''timeout'' (timeout_message t) w) (\<lambda>w'.
                  Inr (True, w'))) = Inr (b, w')"
      by simp
    from then_do_InrD [OF this] obtain t
      where "then_do (terminate p ''timeout'' (timeout_message t) w) (\<lambda>w'.
                  Inr (True, w')) = Inr (b, w')"
      by blast
    from then_do_InrD [OF this] obtain w1
      where "terminate p ''timeout'' (timeout_message t) w = Inr w1"
        and "(Inr (True, w1) :: error + bool \<times> world) = Inr (b, w')"
      by blast
    then show ?thesis by auto
  qed
qed

lemma terminate_store_ok:
  assumes "store_ok w" and "terminate p s m w = Inr w'"
  shows "store_ok w'"
  using terminate_total [OF assms(1), of p s m] assms(2) by auto

lemma check_timeout_frame:
  assumes "check_timeout p w = Inr (b, w')"
  shows "nprocs w' = nprocs w \<and> (\<forall>h. procs w h = NotStarted \<longrightarrow> procs w' h = NotStarted) \<and>
         (store_ok w \<longrightarrow> store_ok w')"
  using check_timeout_cases [OF assms]
proof
  assume "b = False \<and> w' = w"
  then show ?thesis by simp
next
  assume "\<exists>m. b = True \<and> terminate p ''timeout'' m w = Inr w'"
  then obtain m where t: "terminate p ''timeout'' m w = Inr w'" by blast
  from terminate_frame(3) [OF t] terminate_frame(5) [OF t] terminate_store_ok [OF _ t]
  show ?thesis by simp
qed

lemma check_each_frame:
  "check_each ps w = Inr (rm, w') \<Longrightarrow>
   nprocs w' = nprocs w \<and> (\<forall>h. procs w h = NotStarted \<longrightarrow> procs w' h = NotStarted) \<and>
   (store_ok w \<longrightarrow> store_ok w')"
proof (induction ps arbitrary: w rm w')
  case Nil
  then show ?case by simp
next
  case (Cons p ps)
  from then_do_InrD [OF Cons.prems [simplified check_each.simps]] obtain x
    where c: "check_timeout p w = Inr x"
      and r: "(case x of (check, w1) \<Rightarrow>
         then_do (check_each ps w1) (\<lambda>(procs_to_remove, w'').
           Inr (if check = True then p # procs_to_remove else procs_to_remove, w''))) =
         Inr (rm, w')"
    by blast
  obtain b w1 where x: "x = (b, w1)" by (cases x)
  from r have "then_do (check_each ps w1) (\<lambda>(procs_to_remove, w'').
           Inr (if b = True then p # procs_to_remove else procs_to_remove, w'')) =
         Inr (rm, w')"
    by (simp add: x)
  from then_do_InrD [OF this] obtain y
    where e: "check_each ps w1 = Inr y"
      and r2: "(case y of (procs_to_remove, w'') \<Rightarrow>
           Inr (if b = True then p # procs_to_remove else procs_to_remove, w'')) =
         (Inr (rm, w') :: error + enqueued_process list \<times> world)"
    by blast
  obtain rm1 w2 where y: "y = (rm1, w2)" by (cases y)
  from r2 have w2: "w2 = w'" by (simp add: y)
  from check_timeout_frame [OF c [unfolded x]]
  have f1: "nprocs w1 = nprocs w"
    and g1: "\<forall>h. procs w h = NotStarted \<longrightarrow> procs w1 h = NotStarted"
    and o1: "store_ok w \<longrightarrow> store_ok w1"
    by simp_all
  from Cons.IH [OF e [unfolded y w2]]
  have f2: "nprocs w' = nprocs w1"
    and g2: "\<forall>h. procs w1 h = NotStarted \<longrightarrow> procs w' h = NotStarted"
    and o2: "store_ok w1 \<longrightarrow> store_ok w'"
    by simp_all
  from f1 f2 g1 g2 o1 o2 show ?case by simp
qed

lemma remove_each_filtered:
  "remove_each rm s = Inr s' \<Longrightarrow> \<exists>P. s' = filter P s"
proof (induction rm arbitrary: s)
  case Nil
  then have "s' = filter (\<lambda>x. True) s" by simp
  then show ?case by blast
next
  case (Cons x rm)
  from then_do_InrD [OF Cons.prems [simplified remove_each.simps]] obtain s1
    where a: "set_remove x s = Inr s1" and b: "remove_each rm s1 = Inr s'"
    by blast
  from Cons.IH [OF b] obtain P where "s' = filter P s1" by blast
  with set_remove_filter [OF a]
  have "s' = filter (\<lambda>y. process y \<noteq> process x \<and> P y) s" by (simp add: conj_commute)
  then show ?case by blast
qed

lemma wf_evict:
  assumes "wf_state st" and "evict st = Inr st'"
  shows "wf_state st'"
proof -
  from evict_cases [OF assms(2)] obtain rm w ws
    where c: "check_each (waiting_processes st) (env st) = Inr (rm, w)"
      and r: "remove_each rm (waiting_processes st) = Inr ws"
      and st': "st' = st\<lparr>waiting_processes := ws, env := w\<rparr>"
    by blast
  from remove_each_filtered [OF r] obtain P where ws: "ws = filter P (waiting_processes st)"
    by blast
  from check_each_frame [OF c]
  have n: "nprocs w = nprocs (env st)"
    and g: "\<forall>h. procs (env st) h = NotStarted \<longrightarrow> procs w h = NotStarted"
    by simp_all
  from assms(1) n g show ?thesis
    unfolding st' ws wf_state_def
    by (auto simp: distinct_map_filter)
qed

lemma wf_loop_body:
  assumes "wf_state st" and "loop_body cfg tk st = Inr (Continue st')"
  shows "wf_state st'"
proof -
  from loop_body_cases [OF assms(2)] obtain st1 st2 st3
    where s: "submission (data tk) (st\<lparr>env := queue_get (env st)\<rparr>) = Inr st1"
      and a: "admission cfg (pick tk) st1 = Inr st2"
      and r: "reap st2 = Inr st3" and e: "evict st3 = Inr st'"
    by blast
  from wf_submission [OF wf_queue_get [OF assms(1)] s] have "wf_state st1" .
  from wf_admission [OF this a] have "wf_state st2" .
  from wf_reap [OF this r] have "wf_state st3" .
  from wf_evict [OF this e] show ?thesis .
qed

lemma wf_run:
  "wf_state st \<Longrightarrow> run cfg tks st = Inr (Continue st') \<Longrightarrow> wf_state st'"
proof (induction tks arbitrary: st)
  case Nil
  then show ?case by simp
next
  case (Cons tk tks)
  from run_Continue_Cons [OF Cons.prems(2)] obtain st1
    where b: "loop_body cfg tk st = Inr (Continue st1)"
      and r: "run cfg tks st1 = Inr (Continue st')"
    by blast
  from Cons.IH [OF wf_loop_body [OF Cons.prems(1) b] r] show ?case .
qed

lemma wf_reachable:
  "run cfg tks (initial w) = Inr (Continue st) \<Longrightarrow> wf_state st"
  by (rule wf_run [OF wf_initial])

lemma store_ok_submission:
  assumes "store_ok (env st)" and "submission d st = Inr st'"
  shows "store_ok (env st')"
  using submission_cases [OF assms(2)]
proof
  assume "st' = st"
  with assms(1) show ?thesis by simp
next
  assume "\<exists>func tmo args p w. unpack3 d = Inr (func, tmo, args) \<and>
            EnqueuedProcess func tmo args (env st) = Inr (p, w) \<and>
            st' = st\<lparr>waiting_processes := set_add p (waiting_processes st), env := w\<rparr>"
  then obtain func tmo args p w
    where e: "EnqueuedProcess func tmo args (env st) = Inr (p, w)"
      and st': "st' = st\<lparr>waiting_processes := set_add p (waiting_processes st), env := w\<rparr>"
    by blast
  from EnqueuedProcess_cases [OF e] assms(1) show ?thesis
    by (simp add: st')
qed

lemma start_store_ok:
  assumes "store_ok w" and "start p w = Inr (p', w')"
  shows "store_ok w'"
  using assms by (auto simp: start_def Let_def split: if_splits)

lemma store_ok_admission:
  assumes "store_ok (env st)" and "admission cfg k st = Inr st'"
  shows "store_ok (env st')"
proof (cases "int (length (running_procs st)) < NUMBER_OF_WORKERS cfg \<and>
              waiting_processes st \<noteq> []")
  case False
  from admission_idle [OF this, of k] assms show ?thesis by simp
next
  case True
  with admission_cases [OF assms(2)] obtain p rest p' w
    where s: "start p (env st) = Inr (p', w)"
      and st': "st' = st\<lparr>waiting_processes := rest,
                    running_procs := set_add p' (running_procs st), env := w\<rparr>"
    by blast
  from start_store_ok [OF assms(1) s] show ?thesis by (simp add: st')
qed

lemma store_ok_loop_body:
  assumes "store_ok (env st)" and "loop_body cfg tk st = Inr (Continue st')"
  shows "store_ok (env st')"
proof -
  from loop_body_cases [OF assms(2)] obtain st1 st2 st3
    where s: "submission (data tk) (st\<lparr>env := queue_get (env st)\<rparr>) = Inr st1"
      and a: "admission cfg (pick tk) st1 = Inr st2"
      and r: "reap st2 = Inr st3" and e: "evict st3 = Inr st'"
    by blast
  have "store_ok (env (st\<lparr>env := queue_get (env st)\<rparr>))"
    using store_ok_queue_get [OF assms(1)] by simp
  from store_ok_submission [OF this s] have "store_ok (env st1)" .
  from store_ok_admission [OF this a] have o2: "store_ok (env st2)" .
  from r have "env st3 = env st2"
    by (auto simp: reap_def Let_def dest!: then_do_InrD)
  with o2 have o3: "store_ok (env st3)" by simp
  from evict_cases [OF e] obtain rm w ws
    where c: "check_each (waiting_processes st3) (env st3) = Inr (rm, w)"
      and st': "st' = st3\<lparr>waiting_processes := ws, env := w\<rparr>"
    by blast
  from check_each_frame [OF c] o3 show ?thesis by (simp add: st')
qed

lemma store_ok_run:
  "store_ok (env st) \<Longrightarrow> run cfg tks st = Inr (Continue st') \<Longrightarrow> store_ok (env st')"
proof (induction tks arbitrary: st)
  case Nil
  then show ?case by simp
next
  case (Cons tk tks)
  from run_Continue_Cons [OF Cons.prems(2)] obtain st1
    where b: "loop_body cfg tk st = Inr (Continue st1)"
      and r: "run cfg tks st1 = Inr (Continue st')"
    by blast
  from Cons.IH [OF store_ok_loop_body [OF Cons.prems(1) b] r] show ?case .
qed

end
